theory Spec2Isabelle
  imports Main "HOL-Library.Sublist"
begin

section \<open>The configuration loader of entity/c/load_config.c\<close>

text \<open>
  The loader is one C function, \<open>load_config_t\<close>, over the C library: it opens
  a text file, reads it chunk by chunk with \<open>fgets\<close>, splits each chunk with
  \<open>strtok\<close>, looks the first token up with \<open>get_key_value\<close> and copies the
  following token into a fixed-size field of a \<open>config_t\<close> with \<open>memcpy\<close>.
  The embedding keeps the buffer, the pointers into it and the hidden state of
  \<open>strtok\<close> explicit, since the behaviour of the loader depends on all three.
  Undefined behaviour of C (a null pointer handed to the library, a read past the
  end of an object) is a \<open>fault\<close> outcome; a loop that never leaves is the value
  \<open>None\<close>.
\<close>

subsection \<open>What load_config.h declares\<close>

text \<open>
  The header is not part of the sources at hand. The names it declares are taken
  from their uses in load_config.c: the ten enumeration constants of the
  \<open>switch\<close>, the macro \<open>MAX\<close> (here \<open>MAX_bytes\<close>) and the ten character arrays of \<open>config_t\<close>.
  Their numeric values and sizes are parameters, collected in \<open>header\<close>.
\<close>

datatype key =
    ENTITY_INFO_NAME
  | ENTITY_INFO_PURPOSE
  | ENTITY_INFO_NUMKEY
  | AUTH_INFO_PUBKEY_PATH
  | ENTITY_INFO_PRIVKEY_PATH
  | AUTH_INFO_IP_ADDRESS
  | AUTH_INFO_PORT
  | ENTITY_SERVER_INFO_IP_ADDRESS
  | ENTITY_SERVER_INFO_PORT_NUMBER
  | NETWORK_PROTOCOL

record header =
  MAX_bytes :: nat
  enum_value :: "key \<Rightarrow> int"
  sizeof_field :: "key \<Rightarrow> nat"

text \<open>
  \<open>config_t\<close>: each member is a character array, held as the list of its bytes.
  The member \<open>network_protocol\<close> carries a suffix, the name being taken by the
  global array of the same name.
\<close>

record config_t =
  name :: string
  purpose :: string
  numkey :: string
  auth_pubkey_path :: string
  entity_privkey_path :: string
  auth_ip_addr :: string
  auth_port_num :: string
  entity_server_ip_addr :: string
  entity_server_port_num :: string
  network_protocol_member :: string

subsection \<open>The key strings and get_key_value\<close>

definition entity_info_name :: string where
  "entity_info_name = ''entityInfo.name''"

definition entity_info_purpose :: string where
  "entity_info_purpose = ''entityInfo.purpose''"

definition entity_info_numkey :: string where
  "entity_info_numkey = ''entityInfo.number_key''"

definition authinfo_pubkey_path :: string where
  "authinfo_pubkey_path = ''authInfo.pubkey.path''"

definition entity_info_privkey_path :: string where
  "entity_info_privkey_path = ''entityInfo.privkey.path''"

definition authInfo_ip_address :: string where
  "authInfo_ip_address = ''auth.ip.address''"

definition authInfo_port :: string where
  "authInfo_port = ''auth.port.number''"

definition entity_serverInfo_ip_address :: string where
  "entity_serverInfo_ip_address = ''entity.server.ip.address''"

definition entity_serverInfo_port_number :: string where
  "entity_serverInfo_port_number = ''entity.server.port.number''"

definition network_protocol :: string where
  "network_protocol = ''network.protocol''"

text \<open>
  \<open>get_key_value\<close>: the argument is the C string \<open>ptr\<close> points to; \<open>strcmp\<close>
  returning 0 is equality of the two strings.
\<close>

definition get_key_value :: "header \<Rightarrow> string \<Rightarrow> int" where
  "get_key_value h ptr =
     (if ptr = entity_info_name then enum_value h ENTITY_INFO_NAME
      else if ptr = entity_info_purpose then enum_value h ENTITY_INFO_PURPOSE
      else if ptr = entity_info_numkey then enum_value h ENTITY_INFO_NUMKEY
      else if ptr = authinfo_pubkey_path then enum_value h AUTH_INFO_PUBKEY_PATH
      else if ptr = entity_info_privkey_path then enum_value h ENTITY_INFO_PRIVKEY_PATH
      else if ptr = authInfo_ip_address then enum_value h AUTH_INFO_IP_ADDRESS
      else if ptr = authInfo_port then enum_value h AUTH_INFO_PORT
      else if ptr = entity_serverInfo_ip_address then enum_value h ENTITY_SERVER_INFO_IP_ADDRESS
      else if ptr = entity_serverInfo_port_number then enum_value h ENTITY_SERVER_INFO_PORT_NUMBER
      else if ptr = network_protocol then enum_value h NETWORK_PROTOCOL
      else - 1)"

subsection \<open>Memory, the stream and the state of the run\<close>

text \<open>
  Two objects can be reached through a pointer while the loader runs: the local
  array \<open>buffer\<close>, and whatever string an earlier caller of \<open>strtok\<close> left the
  hidden pointer of \<open>strtok\<close> in (\<open>Foreign\<close>). A pointer is \<open>None\<close> for NULL or
  an object and an offset into it.
\<close>

datatype region = Buffer | Foreign

type_synonym ptr = "(region \<times> nat) option"

datatype fault = NullPointer | OutOfBounds

record FILE =
  unread :: string
  eof :: bool
  is_open :: bool

text \<open>
  \<open>cfg\<close> is the object \<open>c\<close> points to, \<open>olds\<close> the hidden pointer of
  \<open>strtok\<close>, \<open>stdout\<close> the strings printed so far, one per call of \<open>printf\<close>.
  \<open>plines\<close> is a history for observation only: one entry per pass of the outer
  loop, the value \<open>fgets\<close> gave to \<open>pline\<close> and the hidden pointer of
  \<open>strtok\<close> at that moment.
\<close>

record state =
  cfg :: config_t
  fp :: "FILE option"
  mem :: "region \<Rightarrow> string"
  olds :: ptr
  stdout :: "string list"
  plines :: "(ptr \<times> ptr) list"

text \<open>
  What the run takes from outside: the files that can be opened for reading and
  their bytes, the indeterminate bytes of the block \<open>malloc\<close> returns (\<open>malloc\<close>
  is taken to succeed), and the hidden pointer of \<open>strtok\<close> on entry with the
  object it points into.
\<close>

record env =
  files :: "string \<Rightarrow> string option"
  heap_block :: config_t
  strtok_olds :: ptr
  foreign :: string

type_synonym 'a exec = "state \<Rightarrow> (fault + 'a) \<times> state"

definition returnE :: "'a \<Rightarrow> 'a exec" where
  "returnE x = (\<lambda>s. (Inr x, s))"

definition bindE :: "'a exec \<Rightarrow> ('a \<Rightarrow> 'b exec) \<Rightarrow> 'b exec" where
  "bindE m f = (\<lambda>s. case m s of (Inl e, s') \<Rightarrow> (Inl e, s') | (Inr x, s') \<Rightarrow> f x s')"

subsection \<open>The C library, as far as the loader uses it\<close>

abbreviation NUL :: char where
  "NUL \<equiv> CHR 0x00"

abbreviation NL :: char where
  "NL \<equiv> CHR 0x0A"

text \<open>
  The C string at offset \<open>i\<close> of an object: the bytes up to the first NUL.
  Without a NUL before the end of the object, reading it runs past the object.
\<close>

definition cstr :: "string \<Rightarrow> nat \<Rightarrow> string option" where
  "cstr obj i =
     (if NUL \<in> set (drop i obj) then Some (takeWhile (\<lambda>x. x \<noteq> NUL) (drop i obj)) else None)"

definition string_at :: "region \<times> nat \<Rightarrow> string exec" where
  "string_at p = (\<lambda>s. case cstr (mem s (fst p)) (snd p) of
                         None \<Rightarrow> (Inl OutOfBounds, s)
                       | Some str \<Rightarrow> (Inr str, s))"

text \<open>
  \<open>fopen(path, "r")\<close>: a fresh stream at the start of the file, or NULL.
\<close>

definition fopen :: "env \<Rightarrow> string \<Rightarrow> FILE option" where
  "fopen e path = map_option (\<lambda>bytes. \<lparr>unread = bytes, eof = False, is_open = True\<rparr>) (files e path)"

definition feof :: "bool exec" where
  "feof = (\<lambda>s. case fp s of None \<Rightarrow> (Inl NullPointer, s) | Some f \<Rightarrow> (Inr (eof f), s))"

definition fclose :: "unit exec" where
  "fclose = (\<lambda>s. case fp s of None \<Rightarrow> (Inl NullPointer, s)
                   | Some f \<Rightarrow> (Inr (), s\<lparr>fp := Some (f\<lparr>is_open := False\<rparr>)\<rparr>))"

text \<open>
  \<open>getline k bytes\<close>: the bytes one call of \<open>fgets\<close> takes from the stream when
  it may store \<open>k\<close> of them: up to and including the first newline, at most \<open>k\<close>.
\<close>

fun getline :: "nat \<Rightarrow> string \<Rightarrow> string" where
  "getline 0 bytes = []"
| "getline (Suc k) [] = []"
| "getline (Suc k) (x # xs) = (if x = NL then [x] else x # getline k xs)"

text \<open>
  \<open>fgets(buffer, n, fp)\<close>. With \<open>n = 0\<close> nothing is read and NULL returned, with
  \<open>n = 1\<close> the empty string is stored. Otherwise the chunk is stored at the start
  of the buffer with a NUL behind it, the rest of the buffer keeping its bytes.
  The end-of-file indicator is set when the stream ends before a newline and
  before \<open>n - 1\<close> bytes were read; with no byte read the buffer is left alone
  and NULL returned.
\<close>

definition fgets :: "nat \<Rightarrow> ptr exec" where
  "fgets n = (\<lambda>s. case fp s of
       None \<Rightarrow> (Inl NullPointer, s)
     | Some f \<Rightarrow>
         if n = 0 then (Inr None, s)
         else
           let chunk = getline (n - 1) (unread f);
               hit = (length chunk < n - 1 \<and> chunk = unread f \<and> (chunk = [] \<or> last chunk \<noteq> NL));
               f' = f\<lparr>unread := drop (length chunk) (unread f), eof := (eof f \<or> hit)\<rparr>
           in if chunk = [] \<and> 1 < n then (Inr None, s\<lparr>fp := Some f'\<rparr>)
              else (Inr (Some (Buffer, 0)),
                    s\<lparr>fp := Some f',
                      mem := (mem s)(Buffer := chunk @ NUL # drop (Suc (length chunk)) (mem s Buffer))\<rparr>))"

text \<open>
  \<open>strtok(s, delim)\<close>, as the C library defines it: with \<open>s\<close> NULL the scan
  starts at the hidden pointer; leading delimiters are skipped; at the end of the
  string NULL is returned; otherwise the token runs to the next delimiter, which
  is overwritten by NUL, and the hidden pointer is left behind it.
\<close>

definition strtok :: "ptr \<Rightarrow> string \<Rightarrow> ptr exec" where
  "strtok s delim = (\<lambda>st.
     case (case s of None \<Rightarrow> olds st | Some p \<Rightarrow> Some p) of
       None \<Rightarrow> (Inl NullPointer, st)
     | Some (r, i) \<Rightarrow>
        (case cstr (mem st r) i of
           None \<Rightarrow> (Inl OutOfBounds, st)
         | Some str \<Rightarrow>
            let skipped = length (takeWhile (\<lambda>x. x \<in> set delim) str);
                start = i + skipped;
                str1 = drop skipped str;
                len = length (takeWhile (\<lambda>x. x \<notin> set delim) str1);
                end = start + len
            in if str1 = [] then (Inr None, st\<lparr>olds := Some (r, start)\<rparr>)
               else if drop len str1 = [] then (Inr (Some (r, start)), st\<lparr>olds := Some (r, end)\<rparr>)
               else (Inr (Some (r, start)),
                     st\<lparr>mem := (mem st)(r := (mem st r)[end := NUL]), olds := Some (r, Suc end)\<rparr>)))"

text \<open>
  \<open>printf(pre "%s" post, ptr)\<close>: the one shape of format the loader uses.
  A null pointer for \<open>%s\<close> is undefined behaviour in C and a fault here.
  (The GNU library prints \<open>(null)\<close> for it; the \<open>memcpy\<close> from the same
  null pointer, which follows in every \<open>case\<close>, faults then.)
\<close>

definition printf_s :: "string \<Rightarrow> ptr \<Rightarrow> string \<Rightarrow> unit exec" where
  "printf_s pre p post = (\<lambda>s.
     case p of
       None \<Rightarrow> (Inl NullPointer, s)
     | Some q \<Rightarrow>
        (case cstr (mem s (fst q)) (snd q) of
           None \<Rightarrow> (Inl OutOfBounds, s)
         | Some str \<Rightarrow> (Inr (), s\<lparr>stdout := stdout s @ [pre @ str @ post]\<rparr>)))"

definition printf :: "string \<Rightarrow> unit exec" where
  "printf str = (\<lambda>s. (Inr (), s\<lparr>stdout := stdout s @ [str]\<rparr>))"

text \<open>
  The source side of \<open>memcpy(dst, ptr, n)\<close>: the \<open>n\<close> bytes at \<open>ptr\<close>, which
  must all lie inside the object.
\<close>

definition memcpy_src :: "ptr \<Rightarrow> nat \<Rightarrow> string exec" where
  "memcpy_src p n = (\<lambda>s.
     case p of
       None \<Rightarrow> (Inl NullPointer, s)
     | Some (r, i) \<Rightarrow>
        if i + n \<le> length (mem s r) then (Inr (take n (drop i (mem s r))), s)
        else (Inl OutOfBounds, s))"

subsection \<open>load_config_t\<close>

text \<open>
  One \<open>case\<close> of the \<open>switch\<close>: the next token delimited by blanks, the
  progress line, and the copy of \<open>sizeof\<close> the member bytes into the member.
\<close>

definition switch_case ::
  "string \<Rightarrow> string \<Rightarrow> (string \<Rightarrow> config_t \<Rightarrow> config_t) \<Rightarrow> nat \<Rightarrow> unit exec" where
  "switch_case pre post member n =
     bindE (strtok None '' '') (\<lambda>ptr.
     bindE (printf_s pre ptr post) (\<lambda>_.
     bindE (memcpy_src ptr n) (\<lambda>bytes.
       (\<lambda>s. (Inr (), s\<lparr>cfg := member bytes (cfg s)\<rparr>)))))"

definition switch :: "header \<Rightarrow> int \<Rightarrow> unit exec" where
  "switch h v =
     (if v = enum_value h ENTITY_INFO_NAME then
        switch_case ''name: '' '''' (\<lambda>b. name_update (\<lambda>_. b)) (sizeof_field h ENTITY_INFO_NAME)
      else if v = enum_value h ENTITY_INFO_PURPOSE then
        switch_case ''purpose: '' '''' (\<lambda>b. purpose_update (\<lambda>_. b)) (sizeof_field h ENTITY_INFO_PURPOSE)
      else if v = enum_value h ENTITY_INFO_NUMKEY then
        switch_case ''Numkey: '' '''' (\<lambda>b. numkey_update (\<lambda>_. b)) (sizeof_field h ENTITY_INFO_NUMKEY)
      else if v = enum_value h AUTH_INFO_PUBKEY_PATH then
        switch_case ''Pubkey path of Auth: '' '''' (\<lambda>b. auth_pubkey_path_update (\<lambda>_. b))
          (sizeof_field h AUTH_INFO_PUBKEY_PATH)
      else if v = enum_value h ENTITY_INFO_PRIVKEY_PATH then
        switch_case ''Privkey path of Entity: '' '''' (\<lambda>b. entity_privkey_path_update (\<lambda>_. b))
          (sizeof_field h ENTITY_INFO_PRIVKEY_PATH)
      else if v = enum_value h AUTH_INFO_IP_ADDRESS then
        switch_case ''IP address of Auth: '' '''' (\<lambda>b. auth_ip_addr_update (\<lambda>_. b))
          (sizeof_field h AUTH_INFO_IP_ADDRESS)
      else if v = enum_value h AUTH_INFO_PORT then
        switch_case ''Port number of Auth: '' '''' (\<lambda>b. auth_port_num_update (\<lambda>_. b))
          (sizeof_field h AUTH_INFO_PORT)
      else if v = enum_value h ENTITY_SERVER_INFO_IP_ADDRESS then
        switch_case ''IP address of entity server: '' '''' (\<lambda>b. entity_server_ip_addr_update (\<lambda>_. b))
          (sizeof_field h ENTITY_SERVER_INFO_IP_ADDRESS)
      else if v = enum_value h ENTITY_SERVER_INFO_PORT_NUMBER then
        switch_case ''Port number of entity server: '' '''' (\<lambda>b. entity_server_port_num_update (\<lambda>_. b))
          (sizeof_field h ENTITY_SERVER_INFO_PORT_NUMBER)
      else if v = enum_value h NETWORK_PROTOCOL then
        switch_case ''Network Protocol: '' [NL] (\<lambda>b. network_protocol_member_update (\<lambda>_. b))
          (sizeof_field h NETWORK_PROTOCOL)
      else returnE ())"

text \<open>
  One pass of the outer loop. The inner \<open>while (ptr != NULL)\<close> ends with an
  unconditional \<open>break\<close>, so its body runs once when the first token exists and
  not at all otherwise.
\<close>

definition loop_body :: "header \<Rightarrow> unit exec" where
  "loop_body h =
     bindE (fgets (MAX_bytes h)) (\<lambda>pline.
     bindE (\<lambda>s. (Inr (), s\<lparr>plines := plines s @ [(pline, olds s)]\<rparr>)) (\<lambda>_.
     bindE (strtok pline ''='') (\<lambda>ptr.
       case ptr of
         None \<Rightarrow> returnE ()
       | Some p \<Rightarrow> bindE (string_at p) (\<lambda>str. switch h (get_key_value h str)))))"

text \<open>
  \<open>while (!feof(fp)) { ... }\<close>. The result is \<open>None\<close> when the loop never ends.
\<close>

partial_function (option) while_loop :: "header \<Rightarrow> state \<Rightarrow> ((fault + unit) \<times> state) option" where
  "while_loop h st =
     (case feof st of
        (Inl e, st1) \<Rightarrow> Some (Inl e, st1)
      | (Inr at_end, st1) \<Rightarrow>
          if at_end then Some (Inr (), st1)
          else (case loop_body h st1 of
                  (Inl e, st2) \<Rightarrow> Some (Inl e, st2)
                | (Inr u, st2) \<Rightarrow> while_loop h st2))"

declare while_loop.simps [code]

definition initial :: "header \<Rightarrow> env \<Rightarrow> string \<Rightarrow> state" where
  "initial h e path =
     \<lparr>cfg = heap_block e,
      fp = fopen e path,
      mem = (\<lambda>r. case r of Buffer \<Rightarrow> replicate (MAX_bytes h) NUL | Foreign \<Rightarrow> foreign e),
      olds = strtok_olds e,
      stdout = [],
      plines = []\<rparr>"

text \<open>
  \<open>load_config_t\<close>: the record returned, or the fault the run stops with, and the
  state at that moment.
\<close>

definition load_config_t :: "header \<Rightarrow> env \<Rightarrow> string \<Rightarrow> ((fault + config_t) \<times> state) option" where
  "load_config_t h e path =
     (case printf ''--config--\<newline>'' (initial h e path) of
        (Inl e1, s1) \<Rightarrow> Some (Inl e1, s1)
      | (Inr u1, s1) \<Rightarrow>
         (case while_loop h s1 of
            None \<Rightarrow> None
          | Some (Inl e2, s2) \<Rightarrow> Some (Inl e2, s2)
          | Some (Inr u2, s2) \<Rightarrow>
             (case fclose s2 of
                (Inl e3, s3) \<Rightarrow> Some (Inl e3, s3)
              | (Inr u3, s3) \<Rightarrow> Some (Inr (cfg s3), s3))))"

subsection \<open>Reading the result\<close>

text \<open>
  The tables behind the statements below: the key string, the member of
  \<open>config_t\<close> and the two halves of the \<open>printf\<close> format that belong to each
  enumeration constant in \<open>get_key_value\<close> and the \<open>switch\<close>.
\<close>

fun key_string :: "key \<Rightarrow> string" where
  "key_string ENTITY_INFO_NAME = entity_info_name"
| "key_string ENTITY_INFO_PURPOSE = entity_info_purpose"
| "key_string ENTITY_INFO_NUMKEY = entity_info_numkey"
| "key_string AUTH_INFO_PUBKEY_PATH = authinfo_pubkey_path"
| "key_string ENTITY_INFO_PRIVKEY_PATH = entity_info_privkey_path"
| "key_string AUTH_INFO_IP_ADDRESS = authInfo_ip_address"
| "key_string AUTH_INFO_PORT = authInfo_port"
| "key_string ENTITY_SERVER_INFO_IP_ADDRESS = entity_serverInfo_ip_address"
| "key_string ENTITY_SERVER_INFO_PORT_NUMBER = entity_serverInfo_port_number"
| "key_string NETWORK_PROTOCOL = network_protocol"

fun field :: "key \<Rightarrow> config_t \<Rightarrow> string" where
  "field ENTITY_INFO_NAME = name"
| "field ENTITY_INFO_PURPOSE = purpose"
| "field ENTITY_INFO_NUMKEY = numkey"
| "field AUTH_INFO_PUBKEY_PATH = auth_pubkey_path"
| "field ENTITY_INFO_PRIVKEY_PATH = entity_privkey_path"
| "field AUTH_INFO_IP_ADDRESS = auth_ip_addr"
| "field AUTH_INFO_PORT = auth_port_num"
| "field ENTITY_SERVER_INFO_IP_ADDRESS = entity_server_ip_addr"
| "field ENTITY_SERVER_INFO_PORT_NUMBER = entity_server_port_num"
| "field NETWORK_PROTOCOL = network_protocol_member"

fun set_field :: "key \<Rightarrow> string \<Rightarrow> config_t \<Rightarrow> config_t" where
  "set_field ENTITY_INFO_NAME b = name_update (\<lambda>_. b)"
| "set_field ENTITY_INFO_PURPOSE b = purpose_update (\<lambda>_. b)"
| "set_field ENTITY_INFO_NUMKEY b = numkey_update (\<lambda>_. b)"
| "set_field AUTH_INFO_PUBKEY_PATH b = auth_pubkey_path_update (\<lambda>_. b)"
| "set_field ENTITY_INFO_PRIVKEY_PATH b = entity_privkey_path_update (\<lambda>_. b)"
| "set_field AUTH_INFO_IP_ADDRESS b = auth_ip_addr_update (\<lambda>_. b)"
| "set_field AUTH_INFO_PORT b = auth_port_num_update (\<lambda>_. b)"
| "set_field ENTITY_SERVER_INFO_IP_ADDRESS b = entity_server_ip_addr_update (\<lambda>_. b)"
| "set_field ENTITY_SERVER_INFO_PORT_NUMBER b = entity_server_port_num_update (\<lambda>_. b)"
| "set_field NETWORK_PROTOCOL b = network_protocol_member_update (\<lambda>_. b)"

fun progress_pre :: "key \<Rightarrow> string" where
  "progress_pre ENTITY_INFO_NAME = ''name: ''"
| "progress_pre ENTITY_INFO_PURPOSE = ''purpose: ''"
| "progress_pre ENTITY_INFO_NUMKEY = ''Numkey: ''"
| "progress_pre AUTH_INFO_PUBKEY_PATH = ''Pubkey path of Auth: ''"
| "progress_pre ENTITY_INFO_PRIVKEY_PATH = ''Privkey path of Entity: ''"
| "progress_pre AUTH_INFO_IP_ADDRESS = ''IP address of Auth: ''"
| "progress_pre AUTH_INFO_PORT = ''Port number of Auth: ''"
| "progress_pre ENTITY_SERVER_INFO_IP_ADDRESS = ''IP address of entity server: ''"
| "progress_pre ENTITY_SERVER_INFO_PORT_NUMBER = ''Port number of entity server: ''"
| "progress_pre NETWORK_PROTOCOL = ''Network Protocol: ''"

fun progress_post :: "key \<Rightarrow> string" where
  "progress_post NETWORK_PROTOCOL = [NL]"
| "progress_post k = []"

text \<open>The key a string names, if any: the comparisons of \<open>get_key_value\<close>, in its order.\<close>

definition key_of :: "string \<Rightarrow> key option" where
  "key_of str =
     (if str = entity_info_name then Some ENTITY_INFO_NAME
      else if str = entity_info_purpose then Some ENTITY_INFO_PURPOSE
      else if str = entity_info_numkey then Some ENTITY_INFO_NUMKEY
      else if str = authinfo_pubkey_path then Some AUTH_INFO_PUBKEY_PATH
      else if str = entity_info_privkey_path then Some ENTITY_INFO_PRIVKEY_PATH
      else if str = authInfo_ip_address then Some AUTH_INFO_IP_ADDRESS
      else if str = authInfo_port then Some AUTH_INFO_PORT
      else if str = entity_serverInfo_ip_address then Some ENTITY_SERVER_INFO_IP_ADDRESS
      else if str = entity_serverInfo_port_number then Some ENTITY_SERVER_INFO_PORT_NUMBER
      else if str = network_protocol then Some NETWORK_PROTOCOL
      else None)"

text \<open>
  What C asks of the header for load_config.c to compile and for \<open>- 1\<close> to mean
  "no key": the ten \<open>case\<close> labels are pairwise different, and none of them is
  \<open>- 1\<close>.
\<close>

definition wf_header :: "header \<Rightarrow> bool" where
  "wf_header h \<longleftrightarrow> inj (enum_value h) \<and> (\<forall>k. enum_value h k \<noteq> - 1)"

text \<open>A member read as a C string: its bytes up to the first NUL, or all of them.\<close>

definition c_string :: "string \<Rightarrow> string" where
  "c_string bytes = takeWhile (\<lambda>x. x \<noteq> NUL) bytes"

text \<open>Every member of the block has the size the header gives it.\<close>

definition sized :: "header \<Rightarrow> config_t \<Rightarrow> bool" where
  "sized h c \<longleftrightarrow> (\<forall>k. length (field k c) = sizeof_field h k)"

text \<open>
  Projections of a run: how it ended, what it printed, the history of its
  passes, whether its stream is open, and the member of a key in the record it
  returned.
\<close>

definition outcome :: "((fault + config_t) \<times> state) option \<Rightarrow> (fault + config_t) option" where
  "outcome run = map_option fst run"

definition printed :: "((fault + config_t) \<times> state) option \<Rightarrow> string list" where
  "printed run = (case run of None \<Rightarrow> [] | Some (r, st) \<Rightarrow> stdout st)"

definition passes :: "((fault + config_t) \<times> state) option \<Rightarrow> (ptr \<times> ptr) list" where
  "passes run = (case run of None \<Rightarrow> [] | Some (r, st) \<Rightarrow> plines st)"

definition stream_open :: "((fault + config_t) \<times> state) option \<Rightarrow> bool option" where
  "stream_open run = (case run of None \<Rightarrow> None | Some (r, st) \<Rightarrow> map_option is_open (fp st))"

definition loaded :: "key \<Rightarrow> ((fault + config_t) \<times> state) option \<Rightarrow> string option" where
  "loaded k run = (case run of Some (Inr c, st) \<Rightarrow> Some (field k c) | _ \<Rightarrow> None)"

subsection \<open>Notions used in the proofs\<close>


text \<open>Where a call of \<open>strtok\<close> starts to scan: at its argument, or at the hidden pointer.\<close>

definition resolve :: "ptr \<Rightarrow> state \<Rightarrow> ptr" where
  "resolve s st = (case s of None \<Rightarrow> olds st | Some p \<Rightarrow> Some p)"

text \<open>The bytes the next call of \<open>fgets\<close> takes from a stream.\<close>

definition chunk_of :: "header \<Rightarrow> FILE \<Rightarrow> string" where
  "chunk_of h f = getline (MAX_bytes h - 1) (unread f)"

text \<open>
  \<open>keeps k P V\<close>, at the head of the outer loop: the member of key \<open>k\<close> holds
  \<open>V\<close>, and all that is left to scan (the unread rest of the stream, and the
  string at the hidden pointer of \<open>strtok\<close> once the stream is used up) lies
  inside \<open>P\<close>.
\<close>

definition keeps :: "key \<Rightarrow> string \<Rightarrow> string \<Rightarrow> state \<Rightarrow> bool" where
  "keeps k P V st \<longleftrightarrow>
     (\<exists>f. fp st = Some f \<and> suffix (unread f) P \<and> field k (cfg st) = V
        \<and> (unread f \<noteq> [] \<or> (\<exists>j s. olds st = Some (Buffer, j) \<and> cstr (mem st Buffer) j = Some s \<and> sublist s P)))"


text \<open>What the outer loop has left to do: it falls with every pass.\<close>

definition todo :: "state \<Rightarrow> nat" where
  "todo s = (case fp s of None \<Rightarrow> 0 | Some f \<Rightarrow> 2 * length (unread f) + (if eof f then 0 else 1))"

text \<open>
  \<open>reading\<close>, at the head of the outer loop, for a stream whose last byte is
  a newline: while the stream has not met its end, every pass so far had a line
  from \<open>fgets\<close>; once it has, the last pass had NULL from \<open>fgets\<close> and the
  hidden pointer of \<open>strtok\<close> in the buffer.
\<close>

definition reading :: "state \<Rightarrow> bool" where
  "reading st \<longleftrightarrow>
     (\<exists>f. fp st = Some f \<and>
        (if eof f then
           (\<exists>qs j. plines st = qs @ [(None, Some (Buffer, j))] \<and> qs \<noteq> []
               \<and> (\<forall>p\<in>set qs. fst p = Some (Buffer, 0)))
         else (\<forall>p\<in>set (plines st). fst p = Some (Buffer, 0))
            \<and> (if unread f = [] then plines st \<noteq> [] \<and> (\<exists>j. olds st = Some (Buffer, j))
                else last (unread f) = NL)))"

subsection \<open>A concrete header and environment\<close>

text \<open>
  Values to run the loader on: a line buffer of 256 bytes, the enumeration
  counted from 0 and members of 32 bytes; a fresh block filled with question
  marks; one file, \<open>entity.config\<close>, and \<open>strtok\<close> not used before.
\<close>

definition example_header :: header where
  "example_header =
     \<lparr>MAX_bytes = 256,
      enum_value = (\<lambda>k. case k of
          ENTITY_INFO_NAME \<Rightarrow> 0 | ENTITY_INFO_PURPOSE \<Rightarrow> 1 | ENTITY_INFO_NUMKEY \<Rightarrow> 2
        | AUTH_INFO_PUBKEY_PATH \<Rightarrow> 3 | ENTITY_INFO_PRIVKEY_PATH \<Rightarrow> 4
        | AUTH_INFO_IP_ADDRESS \<Rightarrow> 5 | AUTH_INFO_PORT \<Rightarrow> 6
        | ENTITY_SERVER_INFO_IP_ADDRESS \<Rightarrow> 7 | ENTITY_SERVER_INFO_PORT_NUMBER \<Rightarrow> 8
        | NETWORK_PROTOCOL \<Rightarrow> 9),
      sizeof_field = (\<lambda>k. 32)\<rparr>"

definition example_block :: config_t where
  "example_block =
     \<lparr>name = replicate 32 (CHR ''?''), purpose = replicate 32 (CHR ''?''),
      numkey = replicate 32 (CHR ''?''), auth_pubkey_path = replicate 32 (CHR ''?''),
      entity_privkey_path = replicate 32 (CHR ''?''), auth_ip_addr = replicate 32 (CHR ''?''),
      auth_port_num = replicate 32 (CHR ''?''), entity_server_ip_addr = replicate 32 (CHR ''?''),
      entity_server_port_num = replicate 32 (CHR ''?''),
      network_protocol_member = replicate 32 (CHR ''?'')\<rparr>"

definition example_env :: "string option \<Rightarrow> env" where
  "example_env bytes =
     \<lparr>files = (\<lambda>p. if p = ''entity.config'' then bytes else None),
      heap_block = example_block,
      strtok_olds = None,
      foreign = []\<rparr>"

text \<open>
  The first pass of the outer loop over a file of the example environment, from
  the state the loop is entered in.
\<close>

definition first_pass :: "string \<Rightarrow> (fault + unit) \<times> state" where
  "first_pass bytes =
     loop_body example_header
       (snd (printf ''--config--\<newline>'' (initial example_header (example_env (Some bytes)) ''entity.config'')))"

section \<open>Properties\<close>

subsection \<open>get_key_value\<close>

lemmas key_strings =
  entity_info_name_def entity_info_purpose_def entity_info_numkey_def authinfo_pubkey_path_def
  entity_info_privkey_path_def authInfo_ip_address_def authInfo_port_def
  entity_serverInfo_ip_address_def entity_serverInfo_port_number_def network_protocol_def

lemma key_of_key_string [simp]: "key_of (key_string k) = Some k"
  by (cases k) (simp_all add: key_of_def key_strings)

lemma key_of_Some: "key_of str = Some k \<longleftrightarrow> str = key_string k"
proof
  assume "key_of str = Some k"
  then show "str = key_string k"
    by (auto simp: key_of_def split: if_splits)
next
  assume "str = key_string k"
  then show "key_of str = Some k" by simp
qed

lemma key_of_None: "key_of str = None \<longleftrightarrow> str \<notin> range key_string"
proof
  assume n: "key_of str = None"
  show "str \<notin> range key_string"
  proof
    assume "str \<in> range key_string"
    then obtain k where "str = key_string k" by auto
    with n show False by simp
  qed
next
  assume "str \<notin> range key_string"
  then have "\<And>k. key_of str \<noteq> Some k"
    by (auto simp: key_of_Some)
  then show "key_of str = None"
    by (cases "key_of str") auto
qed

lemma get_key_value_key_of:
  "get_key_value h str = (case key_of str of None \<Rightarrow> - 1 | Some k \<Rightarrow> enum_value h k)"
  by (simp add: get_key_value_def key_of_def)

text \<open>
  C6. \<open>get_key_value\<close> is a function of the header's constants and of its
  string argument alone (no state of the run is among its arguments). For a
  header whose ten constants are pairwise different and different from \<open>- 1\<close>,
  it returns the constant of a key exactly when the argument is, character for
  character, that key's string; different keys give different results; and it
  returns \<open>- 1\<close> exactly for the strings that are none of the ten.
\<close>

theorem get_key_value_total_exact:
  assumes "wf_header h"
  shows "(get_key_value h str = enum_value h k \<longleftrightarrow> str = key_string k)
       \<and> (get_key_value h str = - 1 \<longleftrightarrow> str \<notin> range key_string)
       \<and> (k \<noteq> k' \<longrightarrow> get_key_value h (key_string k) \<noteq> get_key_value h (key_string k'))"
proof -
  from assms have i: "\<And>a b. enum_value h a = enum_value h b \<longleftrightarrow> a = b"
    and m: "\<And>a. enum_value h a \<noteq> - 1" "\<And>a. - 1 \<noteq> enum_value h a"
    by (auto simp: wf_header_def inj_eq dest: sym)
  have 1: "get_key_value h str = enum_value h k \<longleftrightarrow> str = key_string k"
    using i m key_of_Some [of str k]
    by (cases "key_of str") (auto simp: get_key_value_key_of)
  have 2: "get_key_value h str = - 1 \<longleftrightarrow> str \<notin> range key_string"
    using m key_of_None [of str]
    by (cases "key_of str") (auto simp: get_key_value_key_of)
  have 3: "k \<noteq> k' \<longrightarrow> get_key_value h (key_string k) \<noteq> get_key_value h (key_string k')"
    using i by (simp add: get_key_value_key_of)
  from 1 2 3 show ?thesis by blast
qed

lemma wf_example_header: "wf_header example_header"
  by (auto simp: wf_header_def example_header_def inj_def split: key.splits)

theorem get_key_value_total_exact_witness:
  "wf_header example_header
   \<and> (get_key_value example_header ''auth.port.number'' = enum_value example_header AUTH_INFO_PORT
        \<longleftrightarrow> ''auth.port.number'' = key_string AUTH_INFO_PORT)
   \<and> get_key_value example_header ''auth.port.number'' = 6
   \<and> (get_key_value example_header ''Auth.Port.Number'' = - 1
        \<longleftrightarrow> ''Auth.Port.Number'' \<notin> range key_string)
   \<and> get_key_value example_header ''Auth.Port.Number'' = - 1
   \<and> get_key_value example_header (key_string AUTH_INFO_PORT)
        \<noteq> get_key_value example_header (key_string NETWORK_PROTOCOL)"
  using get_key_value_total_exact [OF wf_example_header, of "''auth.port.number''" AUTH_INFO_PORT NETWORK_PROTOCOL]
    get_key_value_total_exact [OF wf_example_header, of "''Auth.Port.Number''" AUTH_INFO_PORT NETWORK_PROTOCOL]
    wf_example_header
  by (simp add: get_key_value_def key_strings example_header_def)

subsection \<open>A file that cannot be opened\<close>

text \<open>
  C2, as the code has it. For every path naming a file that cannot be opened,
  \<open>fopen\<close> returns NULL, the banner is printed and \<open>feof\<close> is handed the null
  stream: the run stops there with a null-pointer fault. No record is returned,
  no stream was opened, and no typed error reaches the caller.
\<close>

theorem load_unopenable_faults:
  assumes "files e path = None"
  shows "outcome (load_config_t h e path) = Some (Inl NullPointer)
       \<and> stream_open (load_config_t h e path) = None
       \<and> printed (load_config_t h e path) = [''--config--\<newline>'']"
proof -
  have "fp (initial h e path) = None"
    using assms by (simp add: initial_def fopen_def)
  then have "while_loop h ((initial h e path)\<lparr>stdout := stdout (initial h e path) @ [''--config--\<newline>'']\<rparr>)
      = Some (Inl NullPointer, (initial h e path)\<lparr>stdout := stdout (initial h e path) @ [''--config--\<newline>'']\<rparr>)"
    by (subst while_loop.simps) (simp add: feof_def)
  then show ?thesis
    using assms
    by (simp add: load_config_t_def printf_def outcome_def stream_open_def printed_def initial_def fopen_def)
qed

theorem load_unopenable_faults_witness:
  "files (example_env None) ''entity.config'' = None
   \<and> outcome (load_config_t example_header (example_env None) ''entity.config'') = Some (Inl NullPointer)
   \<and> stream_open (load_config_t example_header (example_env None) ''entity.config'') = None
   \<and> printed (load_config_t example_header (example_env None) ''entity.config'') = [''--config--\<newline>'']"
proof -
  have f: "files (example_env None) ''entity.config'' = None"
    by (simp add: example_env_def)
  show ?thesis
    using f load_unopenable_faults [OF f, of example_header] by simp
qed

theorem load_unopenable_counterexample:
  "outcome (load_config_t example_header (example_env None) ''entity.config'') = Some (Inl NullPointer)"
  by code_simp

subsection \<open>C strings and strtok\<close>

lemma cstr_SomeD:
  assumes "cstr obj i = Some s"
  shows "\<exists>rest. drop i obj = s @ NUL # rest \<and> NUL \<notin> set s"
proof -
  let ?xs = "drop i obj"
  from assms have n: "NUL \<in> set ?xs" and s: "s = takeWhile (\<lambda>x. x \<noteq> NUL) ?xs"
    by (auto simp: cstr_def split: if_splits)
  from n have d: "dropWhile (\<lambda>x. x \<noteq> NUL) ?xs \<noteq> []"
    by (simp add: dropWhile_eq_Nil_conv) 
  then have "hd (dropWhile (\<lambda>x. x \<noteq> NUL) ?xs) = NUL"
    using hd_dropWhile [of "\<lambda>x. x \<noteq> NUL" ?xs] by simp
  with d obtain rest where r: "dropWhile (\<lambda>x. x \<noteq> NUL) ?xs = NUL # rest"
    by (cases "dropWhile (\<lambda>x. x \<noteq> NUL) ?xs") auto
  have "?xs = s @ NUL # rest"
    using takeWhile_dropWhile_id [of "\<lambda>x. x \<noteq> NUL" ?xs] r s by simp
  moreover have "NUL \<notin> set s"
    using s by (auto dest: set_takeWhileD)
  ultimately show ?thesis by blast
qed

lemma cstr_SomeI:
  assumes "drop i obj = s @ NUL # rest" "NUL \<notin> set s"
  shows "cstr obj i = Some s"
  using assms by (auto simp add: cstr_def takeWhile_tail)

lemma cstr_append:
  assumes "length pre = i" "NUL \<notin> set s"
  shows "cstr (pre @ s @ NUL # rest) i = Some s"
  using assms by (intro cstr_SomeI [where rest = rest]) simp_all

lemma obj_split:
  assumes "drop i obj = xs @ x # ys"
  shows "obj = take i obj @ xs @ x # ys \<and> length (take i obj) = i"
proof -
  have "length (drop i obj) > 0"
    unfolding assms by simp
  then have "i < length obj" by simp
  then have "length (take i obj) = i" by simp
  moreover have "obj = take i obj @ drop i obj" by simp
  ultimately show ?thesis
    unfolding assms by simp
qed

lemma takeWhile_skip:
  assumes "set sk \<subseteq> set d" "tl_part = [] \<or> hd tl_part \<notin> set d"
  shows "takeWhile (\<lambda>x. x \<in> set d) (sk @ tl_part) = sk"
  using assms by (cases tl_part) (auto simp: takeWhile_append2 subset_iff)

lemma takeWhile_tok:
  assumes "set tok \<inter> set d = {}" "tl_part = [] \<or> hd tl_part \<in> set d"
  shows "takeWhile (\<lambda>x. x \<notin> set d) (tok @ tl_part) = tok"
  using assms by (cases tl_part) (auto simp: takeWhile_tail disjoint_iff)

text \<open>\<open>strtok\<close> when the token ends with the string.\<close>

lemma strtok_end:
  assumes r: "resolve s st = Some (r, i)"
    and m: "mem st r = pre @ sk @ tok @ NUL # rest" "length pre = i"
    and sk: "set sk \<subseteq> set d" and tok: "set tok \<inter> set d = {}"
    and nul: "NUL \<notin> set sk" "NUL \<notin> set tok"
  shows "strtok s d st =
     (if tok = [] then (Inr None, st\<lparr>olds := Some (r, i + length sk)\<rparr>)
      else (Inr (Some (r, i + length sk)), st\<lparr>olds := Some (r, i + length sk + length tok)\<rparr>))"
proof -
  have c: "cstr (mem st r) i = Some (sk @ tok)"
    using m nul cstr_append [of pre i "sk @ tok" rest] by simp
  have t1: "takeWhile (\<lambda>x. x \<in> set d) (sk @ tok) = sk"
    using sk tok by (intro takeWhile_skip) (auto simp: neq_Nil_conv)
  have t2: "takeWhile (\<lambda>x. x \<notin> set d) tok = tok"
    using takeWhile_tok [of tok d "[]"] tok by simp
  show ?thesis
    using r c by (simp add: strtok_def resolve_def Let_def t1 t2 del: takeWhile_eq_all_conv)
qed

text \<open>\<open>strtok\<close> when the token ends at a delimiter.\<close>

lemma strtok_delim:
  assumes r: "resolve s st = Some (r, i)"
    and m: "mem st r = pre @ sk @ tok @ x # rest" "length pre = i"
    and sk: "set sk \<subseteq> set d" and tok: "set tok \<inter> set d = {}" "tok \<noteq> []"
    and x: "x \<in> set d" "NUL \<notin> set d"
    and nul: "NUL \<notin> set sk" "NUL \<notin> set tok" "NUL \<in> set rest"
  shows "strtok s d st =
     (Inr (Some (r, i + length sk)),
      st\<lparr>mem := (mem st)(r := pre @ sk @ tok @ NUL # rest), olds := Some (r, Suc (i + length sk + length tok))\<rparr>)"
proof -
  from nul(3) obtain a b where ab: "rest = a @ NUL # b" "NUL \<notin> set a"
    by (meson split_list_first)
  from x have xn: "x \<noteq> NUL" by auto
  have c: "cstr (mem st r) i = Some (sk @ tok @ x # a)"
    using m nul ab xn cstr_append [of pre i "sk @ tok @ x # a" b] by simp
  have t1: "takeWhile (\<lambda>x. x \<in> set d) (sk @ tok @ x # a) = sk"
    using sk tok by (intro takeWhile_skip) (auto simp: neq_Nil_conv)
  have t2: "takeWhile (\<lambda>x. x \<notin> set d) (tok @ x # a) = tok"
    using tok x by (intro takeWhile_tok) auto
  have u: "(pre @ sk @ tok @ x # rest)[i + length sk + length tok := NUL] = pre @ sk @ tok @ NUL # rest"
    using m(2) list_update_length [of "pre @ sk @ tok" x rest NUL] by (simp add: add.assoc)
  show ?thesis
    using r c u m tok(2) by (simp add: strtok_def resolve_def Let_def t1 t2 del: takeWhile_eq_all_conv)
qed

lemma strtok_InrE:
  assumes a: "strtok s d st = (Inr p, st')" and d: "NUL \<notin> set d"
  obtains r i str j s' where
    "resolve s st = Some (r, i)" "cstr (mem st r) i = Some str"
    "olds st' = Some (r, j)" "cstr (mem st' r) j = Some s'" "suffix s' str"
    "\<And>q. p = Some q \<Longrightarrow> fst q = r \<and> (\<exists>t. cstr (mem st' r) (snd q) = Some t \<and> sublist t str)"
    "cfg st' = cfg st" "fp st' = fp st" "stdout st' = stdout st" "plines st' = plines st"
    "\<And>r'. r' \<noteq> r \<Longrightarrow> mem st' r' = mem st r'" "length (mem st' r) = length (mem st r)"
proof -
  from a obtain r i where r: "resolve s st = Some (r, i)"
    by (cases "resolve s st") (auto simp: strtok_def resolve_def)
  from a r obtain str where c: "cstr (mem st r) i = Some str"
    by (cases "cstr (mem st r) i") (auto simp: strtok_def resolve_def)
  define sk where "sk = takeWhile (\<lambda>x. x \<in> set d) str"
  define str1 where "str1 = dropWhile (\<lambda>x. x \<in> set d) str"
  define tok where "tok = takeWhile (\<lambda>x. x \<notin> set d) str1"
  define rest1 where "rest1 = dropWhile (\<lambda>x. x \<notin> set d) str1"
  have str: "str = sk @ tok @ rest1"
    by (simp add: sk_def str1_def tok_def rest1_def)
  have sk: "set sk \<subseteq> set d"
    by (auto simp: sk_def dest: set_takeWhileD)
  have tok: "set tok \<inter> set d = {}"
    by (auto simp: tok_def dest: set_takeWhileD)
  have h1: "str1 = [] \<or> hd str1 \<notin> set d"
    using hd_dropWhile [of "\<lambda>x. x \<in> set d" str] by (auto simp: str1_def)
  have h2: "rest1 = [] \<or> hd rest1 \<in> set d"
    using hd_dropWhile [of "\<lambda>x. x \<notin> set d" str1] by (auto simp: rest1_def)
  have t0: "tok = [] \<Longrightarrow> rest1 = []"
    using h1 by (cases str1) (auto simp: tok_def rest1_def)
  from cstr_SomeD [OF c] obtain rest where dr: "drop i (mem st r) = str @ NUL # rest" and n: "NUL \<notin> set str"
    by blast
  define pre where "pre = take i (mem st r)"
  have m: "mem st r = pre @ sk @ tok @ rest1 @ NUL # rest" and lp: "length pre = i"
    using obj_split [OF dr] unfolding pre_def str by simp_all
  have n1: "NUL \<notin> set sk" "NUL \<notin> set tok" "NUL \<notin> set rest1"
    using n str by auto
  show ?thesis
  proof (cases rest1)
    case Nil
    have e: "strtok s d st =
       (if tok = [] then (Inr None, st\<lparr>olds := Some (r, i + length sk)\<rparr>)
        else (Inr (Some (r, i + length sk)), st\<lparr>olds := Some (r, i + length sk + length tok)\<rparr>))"
      using r m lp sk tok n1 Nil by (intro strtok_end [where pre = pre and rest = rest]) simp_all
    have c1: "cstr (mem st r) (i + length sk + length tok) = Some []"
      using m lp Nil cstr_append [of "pre @ sk @ tok" "i + length sk + length tok" "[]" rest] by simp
    have c2: "cstr (mem st r) (i + length sk) = Some tok"
      using m lp Nil n1 cstr_append [of "pre @ sk" "i + length sk" tok rest] by simp
    show ?thesis
    proof (cases "tok = []")
      case True
      with e a have "p = None" "st' = st\<lparr>olds := Some (r, i + length sk)\<rparr>" by auto
      with True c1 r c show ?thesis
        by (intro that [of r i str "i + length sk" "[]"]) auto
    next
      case False
      with e a have "p = Some (r, i + length sk)" "st' = st\<lparr>olds := Some (r, i + length sk + length tok)\<rparr>" by auto
      with c1 c2 r c str show ?thesis
        by (intro that [of r i str "i + length sk + length tok" "[]"]) (auto simp: sublist_append)
    qed
  next
    case (Cons x mm)
    with h2 have x: "x \<in> set d" by simp
    from Cons t0 have tn: "tok \<noteq> []" by auto
    have e: "strtok s d st =
       (Inr (Some (r, i + length sk)),
        st\<lparr>mem := (mem st)(r := pre @ sk @ tok @ NUL # mm @ NUL # rest), olds := Some (r, Suc (i + length sk + length tok))\<rparr>)"
      using r m lp sk tok n1 Cons x d tn
      by (intro strtok_delim [where pre = pre and rest = "mm @ NUL # rest" and x = x]) simp_all
    have c1: "cstr (pre @ sk @ tok @ NUL # mm @ NUL # rest) (Suc (i + length sk + length tok)) = Some mm"
      using lp Cons n1 cstr_append [of "pre @ sk @ tok @ [NUL]" "Suc (i + length sk + length tok)" mm rest] by simp
    have c2: "cstr (pre @ sk @ tok @ NUL # mm @ NUL # rest) (i + length sk) = Some tok"
      using lp n1 cstr_append [of "pre @ sk" "i + length sk" tok "mm @ NUL # rest"] by simp
    from e a have ps: "p = Some (r, i + length sk)"
      "st' = st\<lparr>mem := (mem st)(r := pre @ sk @ tok @ NUL # mm @ NUL # rest), olds := Some (r, Suc (i + length sk + length tok))\<rparr>"
      by auto
    have sf: "suffix mm str"
      using str Cons by (auto simp: suffix_def)
    have sl: "sublist tok str"
      using str by (auto simp: sublist_append)
    show ?thesis
      using ps c1 c2 r c sf sl m Cons
      by (intro that [of r i str "Suc (i + length sk + length tok)" mm]) auto
  qed
qed

subsection \<open>getline and fgets\<close>

lemma getline_prefix: "prefix (getline k bs) bs"
  by (induction k bs rule: getline.induct) auto

lemma getline_length: "length (getline k bs) \<le> k"
  by (induction k bs rule: getline.induct) auto

lemma getline_Nil: "getline k [] = []"
  by (cases k) auto

lemma getline_eq_Nil: "getline k bs = [] \<longleftrightarrow> k = 0 \<or> bs = []"
  by (induction k bs rule: getline.induct) auto



lemma fgets_Inr:
  assumes "fp st = Some f"
  shows "\<exists>pl st'. fgets n st = (Inr pl, st')
     \<and> fp st' = Some (f\<lparr>unread := drop (length (getline (n - 1) (unread f))) (unread f),
                        eof := (eof f \<or> (length (getline (n - 1) (unread f)) < n - 1
                                 \<and> getline (n - 1) (unread f) = unread f
                                 \<and> (getline (n - 1) (unread f) = [] \<or> last (getline (n - 1) (unread f)) \<noteq> NL)))\<rparr>)
     \<and> cfg st' = cfg st \<and> olds st' = olds st \<and> stdout st' = stdout st \<and> plines st' = plines st
     \<and> mem st' Foreign = mem st Foreign
     \<and> (case pl of
           None \<Rightarrow> mem st' = mem st \<and> (n = 0 \<or> unread f = [])
         | Some q \<Rightarrow> q = (Buffer, 0) \<and> 0 < n
             \<and> mem st' Buffer = getline (n - 1) (unread f) @ NUL # drop (Suc (length (getline (n - 1) (unread f)))) (mem st Buffer))"
proof (cases "n = 0")
  case True
  then show ?thesis using assms by (simp add: fgets_def)
next
  case False
  then show ?thesis using assms
    by (auto simp: fgets_def Let_def getline_eq_Nil)
qed

lemma fgets_InrE:
  assumes "bindE (fgets n) g st = (Inr u, st')"
  shows "\<exists>f. fp st = Some f"
  using assms by (cases "fp st") (auto simp: bindE_def fgets_def)

subsection \<open>The switch\<close>

lemma set_field_funs:
  "set_field ENTITY_INFO_NAME = (\<lambda>b. name_update (\<lambda>_. b))"
  "set_field ENTITY_INFO_PURPOSE = (\<lambda>b. purpose_update (\<lambda>_. b))"
  "set_field ENTITY_INFO_NUMKEY = (\<lambda>b. numkey_update (\<lambda>_. b))"
  "set_field AUTH_INFO_PUBKEY_PATH = (\<lambda>b. auth_pubkey_path_update (\<lambda>_. b))"
  "set_field ENTITY_INFO_PRIVKEY_PATH = (\<lambda>b. entity_privkey_path_update (\<lambda>_. b))"
  "set_field AUTH_INFO_IP_ADDRESS = (\<lambda>b. auth_ip_addr_update (\<lambda>_. b))"
  "set_field AUTH_INFO_PORT = (\<lambda>b. auth_port_num_update (\<lambda>_. b))"
  "set_field ENTITY_SERVER_INFO_IP_ADDRESS = (\<lambda>b. entity_server_ip_addr_update (\<lambda>_. b))"
  "set_field ENTITY_SERVER_INFO_PORT_NUMBER = (\<lambda>b. entity_server_port_num_update (\<lambda>_. b))"
  "set_field NETWORK_PROTOCOL = (\<lambda>b. network_protocol_member_update (\<lambda>_. b))"
  by (rule ext, simp)+

lemma switch_get_key_value:
  assumes "wf_header h"
  shows "switch h (get_key_value h str) =
    (case key_of str of
       None \<Rightarrow> returnE ()
     | Some k \<Rightarrow> switch_case (progress_pre k) (progress_post k) (set_field k) (sizeof_field h k))"
proof -
  from assms have i: "\<And>a b. enum_value h a = enum_value h b \<longleftrightarrow> a = b"
    and m: "\<And>a. enum_value h a \<noteq> - 1" "\<And>a. - 1 \<noteq> enum_value h a"
    by (auto simp: wf_header_def inj_eq dest: sym)
  show ?thesis
  proof (cases "key_of str")
    case None
    then show ?thesis
      using m by (simp add: get_key_value_key_of switch_def)
  next
    case (Some k)
    have "switch h (enum_value h k) = switch_case (progress_pre k) (progress_post k) (set_field k) (sizeof_field h k)"
      by (cases k) (simp_all add: switch_def i set_field_funs)
    with Some show ?thesis
      by (simp add: get_key_value_key_of)
  qed
qed

lemma switch_case_InrE:
  assumes "switch_case pre post upd n st = (Inr u, st')"
  obtains q st1 t where
    "strtok None '' '' st = (Inr (Some q), st1)"
    "cstr (mem st1 (fst q)) (snd q) = Some t"
    "snd q + n \<le> length (mem st1 (fst q))"
    "st' = st1\<lparr>stdout := stdout st1 @ [pre @ t @ post],
               cfg := upd (take n (drop (snd q) (mem st1 (fst q)))) (cfg st1)\<rparr>"
proof -
  from assms obtain p st1 where s: "strtok None '' '' st = (Inr p, st1)"
    by (cases "strtok None '' '' st"; cases "fst (strtok None '' '' st)") (auto simp: switch_case_def bindE_def)
  from assms s obtain q where q: "p = Some q"
    by (cases p) (auto simp: switch_case_def bindE_def printf_s_def)
  from assms s q obtain t where t: "cstr (mem st1 (fst q)) (snd q) = Some t"
    by (cases "cstr (mem st1 (fst q)) (snd q)") (auto simp: switch_case_def bindE_def printf_s_def)
  from assms s q t have "snd q + n \<le> length (mem st1 (fst q))"
    and "st' = st1\<lparr>stdout := stdout st1 @ [pre @ t @ post],
               cfg := upd (take n (drop (snd q) (mem st1 (fst q)))) (cfg st1)\<rparr>"
    by (cases q; auto simp: switch_case_def bindE_def printf_s_def memcpy_src_def split: if_splits)+
  with s q t show ?thesis
    by (intro that [of q st1 t]) auto
qed

lemma loop_body_InrE:
  assumes a: "loop_body h st = (Inr u, st')" and wf: "wf_header h"
  obtains f pl st1 p st2 where
    "fp st = Some f"
    "fgets (MAX_bytes h) st = (Inr pl, st1)"
    "strtok pl ''='' (st1\<lparr>plines := plines st1 @ [(pl, olds st1)]\<rparr>) = (Inr p, st2)"
    "p = None \<longrightarrow> st' = st2"
    "\<forall>q. p = Some q \<longrightarrow> (\<exists>t. cstr (mem st2 (fst q)) (snd q) = Some t \<and>
        (case key_of t of
           None \<Rightarrow> st' = st2
         | Some k \<Rightarrow> switch_case (progress_pre k) (progress_post k) (set_field k) (sizeof_field h k) st2 = (Inr (), st')))"
proof -
  from a obtain f where f: "fp st = Some f"
    unfolding loop_body_def by (blast dest: fgets_InrE)
  from fgets_Inr [OF f, of "MAX_bytes h"] obtain pl st1 where g: "fgets (MAX_bytes h) st = (Inr pl, st1)"
    by blast
  let ?s = "st1\<lparr>plines := plines st1 @ [(pl, olds st1)]\<rparr>"
  from a g obtain p st2 where s: "strtok pl ''='' ?s = (Inr p, st2)"
    by (cases "strtok pl ''='' ?s"; cases "fst (strtok pl ''='' ?s)") (auto simp: loop_body_def bindE_def)
  have 1: "p = None \<longrightarrow> st' = st2"
    using a g s by (auto simp: loop_body_def bindE_def returnE_def)
  have 2: "\<forall>q. p = Some q \<longrightarrow> (\<exists>t. cstr (mem st2 (fst q)) (snd q) = Some t \<and>
        (case key_of t of
           None \<Rightarrow> st' = st2
         | Some k \<Rightarrow> switch_case (progress_pre k) (progress_post k) (set_field k) (sizeof_field h k) st2 = (Inr (), st')))"
  proof (intro allI impI)
    fix q assume q: "p = Some q"
    from a g s q obtain t where t: "cstr (mem st2 (fst q)) (snd q) = Some t"
      by (cases "cstr (mem st2 (fst q)) (snd q)") (auto simp: loop_body_def bindE_def string_at_def)
    from a g s q t have "switch h (get_key_value h t) st2 = (Inr u, st')"
      by (simp add: loop_body_def bindE_def string_at_def)
    then have "(case key_of t of
           None \<Rightarrow> st' = st2
         | Some k \<Rightarrow> switch_case (progress_pre k) (progress_post k) (set_field k) (sizeof_field h k) st2 = (Inr (), st'))"
      unfolding switch_get_key_value [OF wf]
      by (cases "key_of t") (auto simp: returnE_def)
    with t show "\<exists>t. cstr (mem st2 (fst q)) (snd q) = Some t \<and>
        (case key_of t of
           None \<Rightarrow> st' = st2
         | Some k \<Rightarrow> switch_case (progress_pre k) (progress_post k) (set_field k) (sizeof_field h k) st2 = (Inr (), st'))"
      by blast
  qed
  from f g s 1 2 show ?thesis by (rule that)
qed

text \<open>Invariants of the outer loop.\<close>

lemma while_loop_invariant_aux:
  assumes step: "\<And>s s'. I s \<Longrightarrow> feof s = (Inr False, s) \<Longrightarrow> loop_body h s = (Inr (), s') \<Longrightarrow> I s'"
    and run: "while_loop h0 st0 = Some r0"
  shows "h0 = h \<longrightarrow> I st0 \<longrightarrow> (\<forall>u st'. r0 = (Inr u, st') \<longrightarrow> I st' \<and> feof st' = (Inr True, st'))"
proof (rule while_loop.raw_induct
    [where P = "\<lambda>h' st r. h' = h \<longrightarrow> I st \<longrightarrow> (\<forall>u st'. r = (Inr u, st') \<longrightarrow> I st' \<and> feof st' = (Inr True, st'))",
      OF _ run], goal_cases)
  case (1 w h' st r)
  show ?case
  proof (intro impI allI)
    fix u st' assume hh: "h' = h" and i: "I st" and r: "r = (Inr u, st')"
    from 1(2) r obtain b where b: "feof st = (Inr b, st)"
      by (cases "fp st") (auto simp: feof_def)
    show "I st' \<and> feof st' = (Inr True, st')"
    proof (cases b)
      case True
      with 1(2) b r i show ?thesis by auto
    next
      case False
      with 1(2) b r hh obtain s2 where s2: "loop_body h st = (Inr (), s2)" "w h s2 = Some r"
        by (cases "loop_body h st"; cases "fst (loop_body h st)") auto
      from step [OF i] b False s2 have "I s2" by simp
      with 1(1) [OF s2(2)] r show ?thesis by simp
    qed
  qed
qed

lemma while_loop_invariant:
  assumes run: "while_loop h st = Some (Inr u, st')"
    and init: "I st"
    and step: "\<And>s s'. I s \<Longrightarrow> feof s = (Inr False, s) \<Longrightarrow> loop_body h s = (Inr (), s') \<Longrightarrow> I s'"
  shows "I st' \<and> feof st' = (Inr True, st')"
  using while_loop_invariant_aux [of I h h st "(Inr u, st')", OF step run] init by simp

lemma strtok_InrD:
  assumes "strtok s d st = (Inr p, st')" "NUL \<notin> set d"
  shows "\<exists>r i str j rem.
    resolve s st = Some (r, i) \<and> cstr (mem st r) i = Some str
    \<and> olds st' = Some (r, j) \<and> cstr (mem st' r) j = Some rem \<and> suffix rem str
    \<and> (\<forall>q. p = Some q \<longrightarrow> fst q = r \<and> (\<exists>t. cstr (mem st' r) (snd q) = Some t \<and> sublist t str))
    \<and> cfg st' = cfg st \<and> fp st' = fp st \<and> stdout st' = stdout st \<and> plines st' = plines st
    \<and> (\<forall>r'. r' \<noteq> r \<longrightarrow> mem st' r' = mem st r') \<and> length (mem st' r) = length (mem st r)"
  by (rule strtok_InrE [OF assms]) blast

lemma resolve_simps [simp]:
  "resolve None st = olds st" "resolve (Some q) st = Some q"
  "resolve pl (st\<lparr>plines := x\<rparr>) = resolve pl st"
  by (simp_all add: resolve_def split: option.splits)

lemma loop_body_summary:
  assumes wf: "wf_header h" and a: "loop_body h s = (Inr u, s')"
  obtains f pl s1 r i str j rem where
    "fp s = Some f" "fgets (MAX_bytes h) s = (Inr pl, s1)"
    "resolve pl s1 = Some (r, i)" "cstr (mem s1 r) i = Some str"
    "olds s' = Some (r, j)" "cstr (mem s' r) j = Some rem" "sublist rem str"
    "fp s' = fp s1" "plines s' = plines s1 @ [(pl, olds s1)]"
    "\<And>r'. r' \<noteq> r \<Longrightarrow> mem s' r' = mem s1 r'" "length (mem s' r) = length (mem s1 r)"
    "cfg s' = cfg s1 \<or> (\<exists>k' bytes. sublist (key_string k') str \<and> length bytes = sizeof_field h k'
        \<and> cfg s' = set_field k' bytes (cfg s1))"
proof -
  note concl = that
  from loop_body_InrE [OF a wf] obtain f pl s1 p s2 where
    f: "fp s = Some f" and g: "fgets (MAX_bytes h) s = (Inr pl, s1)"
    and t: "strtok pl ''='' (s1\<lparr>plines := plines s1 @ [(pl, olds s1)]\<rparr>) = (Inr p, s2)"
    and pn: "p = None \<longrightarrow> s' = s2"
    and ps: "\<forall>q. p = Some q \<longrightarrow> (\<exists>t. cstr (mem s2 (fst q)) (snd q) = Some t \<and>
        (case key_of t of
           None \<Rightarrow> s' = s2
         | Some k \<Rightarrow> switch_case (progress_pre k) (progress_post k) (set_field k) (sizeof_field h k) s2 = (Inr (), s')))"
    by blast
  have "\<exists>r i str j rem.
    resolve pl s1 = Some (r, i) \<and> cstr (mem s1 r) i = Some str
    \<and> olds s2 = Some (r, j) \<and> cstr (mem s2 r) j = Some rem \<and> suffix rem str
    \<and> (\<forall>q. p = Some q \<longrightarrow> fst q = r \<and> (\<exists>t. cstr (mem s2 r) (snd q) = Some t \<and> sublist t str))
    \<and> cfg s2 = cfg s1 \<and> fp s2 = fp s1 \<and> stdout s2 = stdout s1 \<and> plines s2 = plines s1 @ [(pl, olds s1)]
    \<and> (\<forall>r'. r' \<noteq> r \<longrightarrow> mem s2 r' = mem s1 r') \<and> length (mem s2 r) = length (mem s1 r)"
    using strtok_InrD [OF t] by simp
  then obtain r i str j rem where
    r: "resolve pl s1 = Some (r, i)" and c: "cstr (mem s1 r) i = Some str"
    and o: "olds s2 = Some (r, j)" and cr: "cstr (mem s2 r) j = Some rem" and sf: "suffix rem str"
    and q: "\<And>q. p = Some q \<Longrightarrow> fst q = r \<and> (\<exists>t. cstr (mem s2 r) (snd q) = Some t \<and> sublist t str)"
    and fr: "cfg s2 = cfg s1" "fp s2 = fp s1" "stdout s2 = stdout s1" "plines s2 = plines s1 @ [(pl, olds s1)]"
    and mo: "\<And>r'. r' \<noteq> r \<Longrightarrow> mem s2 r' = mem s1 r'" and ml: "length (mem s2 r) = length (mem s1 r)"
    by blast
  have stay: ?thesis if eq: "s' = s2"
    using eq f g r c o cr sf fr mo ml
    by (intro concl [of f pl s1 r i str j rem]) (auto intro: suffix_imp_sublist)
  show ?thesis
  proof (cases p)
    case None
    with pn stay show ?thesis by simp
  next
    case (Some q0)
    with ps obtain t where t: "cstr (mem s2 (fst q0)) (snd q0) = Some t"
      and sw: "(case key_of t of
           None \<Rightarrow> s' = s2
         | Some k \<Rightarrow> switch_case (progress_pre k) (progress_post k) (set_field k) (sizeof_field h k) s2 = (Inr (), s'))"
      by blast
    from q [OF Some] t have ts: "sublist t str" by auto
    show ?thesis
    proof (cases "key_of t")
      case None
      with sw stay show ?thesis by simp
    next
      case (Some k)
      then have tk: "t = key_string k" by (simp add: key_of_Some)
      from sw Some have sc: "switch_case (progress_pre k) (progress_post k) (set_field k) (sizeof_field h k) s2 = (Inr (), s')"
        by simp
      from switch_case_InrE [OF sc] obtain q2 s3 t2 where
        t3: "strtok None '' '' s2 = (Inr (Some q2), s3)"
        and c3: "cstr (mem s3 (fst q2)) (snd q2) = Some t2"
        and b3: "snd q2 + sizeof_field h k \<le> length (mem s3 (fst q2))"
        and e3: "s' = s3\<lparr>stdout := stdout s3 @ [progress_pre k @ t2 @ progress_post k],
               cfg := set_field k (take (sizeof_field h k) (drop (snd q2) (mem s3 (fst q2)))) (cfg s3)\<rparr>"
        by blast
      have "\<exists>j3 rem3. olds s3 = Some (r, j3) \<and> cstr (mem s3 r) j3 = Some rem3 \<and> suffix rem3 rem
        \<and> cfg s3 = cfg s2 \<and> fp s3 = fp s2 \<and> plines s3 = plines s2
        \<and> (\<forall>r'. r' \<noteq> r \<longrightarrow> mem s3 r' = mem s2 r') \<and> length (mem s3 r) = length (mem s2 r)"
        using strtok_InrD [OF t3] o cr by auto
      then obtain j3 rem3 where
        o3: "olds s3 = Some (r, j3)" and cr3: "cstr (mem s3 r) j3 = Some rem3" and sf3: "suffix rem3 rem"
        and fr3: "cfg s3 = cfg s2" "fp s3 = fp s2" "plines s3 = plines s2"
        and mo3: "\<And>r'. r' \<noteq> r \<Longrightarrow> mem s3 r' = mem s2 r'" and ml3: "length (mem s3 r) = length (mem s2 r)"
        by blast
      have sl: "sublist rem3 str"
        using sf3 sf by (meson suffix_imp_sublist suffix_order.trans)
      have lb: "length (take (sizeof_field h k) (drop (snd q2) (mem s3 (fst q2)))) = sizeof_field h k"
        using b3 by simp
      have upd: "cfg s' = cfg s1 \<or> (\<exists>k' bytes. sublist (key_string k') str \<and> length bytes = sizeof_field h k'
          \<and> cfg s' = set_field k' bytes (cfg s1))"
        using e3 fr fr3 ts tk lb
        by (intro disjI2 exI [of _ k] exI [of _ "take (sizeof_field h k) (drop (snd q2) (mem s3 (fst q2)))"]) simp
      show ?thesis
        using f g r c o3 cr3 sl fr fr3 mo mo3 ml ml3 e3
        by (intro concl [of f pl s1 r i str j3 rem3] upd) auto
    qed
  qed
qed

lemma fgets_InrD:
  assumes "fp st = Some f" "fgets (MAX_bytes h) st = (Inr pl, st')"
  shows "fp st' = Some (f\<lparr>unread := drop (length (chunk_of h f)) (unread f),
                        eof := (eof f \<or> (length (chunk_of h f) < MAX_bytes h - 1
                                 \<and> chunk_of h f = unread f
                                 \<and> (chunk_of h f = [] \<or> last (chunk_of h f) \<noteq> NL)))\<rparr>)"
    and "cfg st' = cfg st" "olds st' = olds st" "stdout st' = stdout st" "plines st' = plines st"
    and "mem st' Foreign = mem st Foreign"
    and "pl = None \<Longrightarrow> mem st' = mem st \<and> (MAX_bytes h = 0 \<or> unread f = [])"
    and "pl \<noteq> None \<Longrightarrow> pl = Some (Buffer, 0) \<and> 0 < MAX_bytes h
             \<and> mem st' Buffer = chunk_of h f @ NUL # drop (Suc (length (chunk_of h f))) (mem st Buffer)"
  using fgets_Inr [OF assms(1), of "MAX_bytes h"] assms(2)
  by (auto simp: chunk_of_def split: option.splits)

lemma field_set_field:
  "field k (set_field k' b c) = (if k = k' then b else field k c)"
  by (cases k; cases k') simp_all

lemma cstr_chunk:
  assumes "length pre = i"
  shows "cstr (pre @ c @ NUL # x) i = Some (takeWhile (\<lambda>x. x \<noteq> NUL) c)"
proof (cases "NUL \<in> set c")
  case True
  then show ?thesis using assms by (auto simp: cstr_def takeWhile_append)
next
  case False
  then have "takeWhile (\<lambda>x. x \<noteq> NUL) c = c" by (auto simp: takeWhile_eq_all_conv)
  then show ?thesis using False cstr_append [OF assms, of c x] by (simp del: takeWhile_eq_all_conv)
qed

lemma sublist_takeWhile: "sublist (takeWhile P xs) xs"
  by (simp add: prefix_imp_sublist takeWhile_is_prefix)

lemma sublist_trans3: "sublist a b \<Longrightarrow> sublist b c \<Longrightarrow> sublist a c"
proof -
  assume "sublist a b" "sublist b c"
  then obtain p1 s1 p2 s2 where "b = p1 @ a @ s1" "c = p2 @ b @ s2"
    by (auto simp: sublist_def)
  then have "c = (p2 @ p1) @ a @ (s1 @ s2)" by simp
  then show ?thesis unfolding sublist_def by blast
qed

text \<open>What the first \<open>strtok\<close> of a pass scans, under \<open>keeps\<close>.\<close>

lemma pass_scans:
  assumes big: "2 \<le> MAX_bytes (h::header)" and kp: "keeps k P V s"
    and f: "fp s = Some f" and g: "fgets (MAX_bytes h) s = (Inr pl, s1)"
  shows "\<exists>i str. resolve pl s1 = Some (Buffer, i) \<and> cstr (mem s1 Buffer) i = Some str \<and> sublist str P"
proof (cases pl)
  case None
  with fgets_InrD(7) [OF f g] big have m: "mem s1 = mem s" and u: "unread f = []" by auto
  from kp f u obtain j s0 where "olds s = Some (Buffer, j)" "cstr (mem s Buffer) j = Some s0" "sublist s0 P"
    by (auto simp: keeps_def)
  with None m fgets_InrD(3) [OF f g] show ?thesis by simp
next
  case (Some q)
  with fgets_InrD(8) [OF f g] have q: "pl = Some (Buffer, 0)"
    and m: "mem s1 Buffer = chunk_of h f @ NUL # drop (Suc (length (chunk_of h f))) (mem s Buffer)"
    by auto
  have c: "cstr (mem s1 Buffer) 0 = Some (takeWhile (\<lambda>x. x \<noteq> NUL) (chunk_of h f))"
    unfolding m using cstr_chunk [of "[]" 0] by simp
  from kp f have "suffix (unread f) P" by (simp add: keeps_def)
  then have "sublist (chunk_of h f) P"
    unfolding chunk_of_def
    by (meson getline_prefix prefix_imp_sublist suffix_imp_sublist sublist_trans3)
  then have "sublist (takeWhile (\<lambda>x. x \<noteq> NUL) (chunk_of h f)) P"
    using sublist_takeWhile sublist_trans3 by blast
  with q c show ?thesis by simp
qed

lemma loop_body_summaryD:
  assumes wf: "wf_header h" and a: "loop_body h s = (Inr u, s')"
  shows "\<exists>f pl s1 r i str j rem.
    fp s = Some f \<and> fgets (MAX_bytes h) s = (Inr pl, s1)
    \<and> resolve pl s1 = Some (r, i) \<and> cstr (mem s1 r) i = Some str
    \<and> olds s' = Some (r, j) \<and> cstr (mem s' r) j = Some rem \<and> sublist rem str
    \<and> fp s' = fp s1 \<and> plines s' = plines s1 @ [(pl, olds s1)]
    \<and> (\<forall>r'. r' \<noteq> r \<longrightarrow> mem s' r' = mem s1 r') \<and> length (mem s' r) = length (mem s1 r)
    \<and> (cfg s' = cfg s1 \<or> (\<exists>k' bytes. sublist (key_string k') str \<and> length bytes = sizeof_field h k'
        \<and> cfg s' = set_field k' bytes (cfg s1)))"
proof (rule loop_body_summary [OF wf a], intro exI conjI allI impI)
qed assumption+

lemma keeps_step:
  assumes wf: "wf_header h" and big: "2 \<le> MAX_bytes h"
    and nk: "\<not> sublist (key_string k) P"
    and kp: "keeps k P V s"
    and a: "loop_body h s = (Inr u, s')"
  shows "keeps k P V s'"
proof -
  from loop_body_summaryD [OF wf a] obtain f pl s1 r i str j rem where
    f: "fp s = Some f" and g: "fgets (MAX_bytes h) s = (Inr pl, s1)"
    and r: "resolve pl s1 = Some (r, i)" and c: "cstr (mem s1 r) i = Some str"
    and o: "olds s' = Some (r, j)" and cr: "cstr (mem s' r) j = Some rem" and sr: "sublist rem str"
    and fp': "fp s' = fp s1"
    and cf: "cfg s' = cfg s1 \<or> (\<exists>k' bytes. sublist (key_string k') str \<and> length bytes = sizeof_field h k'
        \<and> cfg s' = set_field k' bytes (cfg s1))"
    by (elim exE conjE) (rule that)
  from pass_scans [OF big kp f g] r c have rb: "r = Buffer" and sp: "sublist str P"
    by auto
  from kp f have su: "suffix (unread f) P" and v: "field k (cfg s) = V"
    by (auto simp: keeps_def)
  have 1: "suffix (drop (length (chunk_of h f)) (unread f)) P"
    using su by (meson suffix_drop suffix_order.trans)
  have 2: "field k (cfg s') = V"
  proof -
    from cf show ?thesis
    proof
      assume "cfg s' = cfg s1"
      with v fgets_InrD(2) [OF f g] show ?thesis by simp
    next
      assume "\<exists>k' bytes. sublist (key_string k') str \<and> length bytes = sizeof_field h k'
        \<and> cfg s' = set_field k' bytes (cfg s1)"
      then obtain k' bytes where k': "sublist (key_string k') str" "cfg s' = set_field k' bytes (cfg s1)"
        by blast
      from k'(1) sp nk have "k' \<noteq> k"
        using sublist_trans3 by blast
      with k'(2) v fgets_InrD(2) [OF f g] show ?thesis
        by (simp add: field_set_field)
    qed
  qed
  have 3: "sublist rem P"
    using sr sp sublist_trans3 by blast
  show ?thesis
    unfolding keeps_def
    using fp' fgets_InrD(1) [OF f g] 1 2 3 o cr rb by auto
qed




subsection \<open>Runs of the whole loader\<close>


lemma loaded_SomeD:
  assumes "loaded k run = Some v"
  shows "\<exists>c. outcome run = Some (Inr c) \<and> v = field k c"
  using assms by (auto simp: loaded_def outcome_def split: option.splits sum.splits)

lemma load_returns:
  assumes "outcome (load_config_t h e path) = Some (Inr c)"
  shows "\<exists>st2 f. while_loop h ((initial h e path)\<lparr>stdout := [''--config--\<newline>'']\<rparr>) = Some (Inr (), st2)
     \<and> fp st2 = Some f
     \<and> load_config_t h e path = Some (Inr (cfg st2), st2\<lparr>fp := Some (f\<lparr>is_open := False\<rparr>)\<rparr>)
     \<and> c = cfg st2"
proof -
  let ?s = "(initial h e path)\<lparr>stdout := [''--config--\<newline>'']\<rparr>"
  have p: "printf ''--config--\<newline>'' (initial h e path) = (Inr (), ?s)"
    by (simp add: printf_def initial_def)
  from assms p obtain r st2 where w: "while_loop h ?s = Some (r, st2)"
    by (cases "while_loop h ?s") (auto simp: load_config_t_def outcome_def)
  from assms p w obtain u where r: "r = Inr u"
    by (cases r) (auto simp: load_config_t_def outcome_def)
  from assms p w r obtain f where f: "fp st2 = Some f"
    by (cases "fp st2") (auto simp: load_config_t_def outcome_def fclose_def)
  from p w r f have l: "load_config_t h e path = Some (Inr (cfg st2), st2\<lparr>fp := Some (f\<lparr>is_open := False\<rparr>)\<rparr>)"
    by (simp add: load_config_t_def fclose_def)
  with assms have "c = cfg st2" by (simp add: outcome_def)
  with w r f l show ?thesis by simp
qed



lemma strtok_total:
  assumes "resolve s st = Some (r, i)" "cstr (mem st r) i = Some str"
  shows "\<exists>p st'. strtok s d st = (Inr p, st')"
  using assms by (simp add: strtok_def resolve_def Let_def)

lemma config_eqI:
  fixes a b :: config_t
  assumes "\<And>k. field k a = field k b"
  shows "a = b"
  using assms [of ENTITY_INFO_NAME] assms [of ENTITY_INFO_PURPOSE] assms [of ENTITY_INFO_NUMKEY]
    assms [of AUTH_INFO_PUBKEY_PATH] assms [of ENTITY_INFO_PRIVKEY_PATH] assms [of AUTH_INFO_IP_ADDRESS]
    assms [of AUTH_INFO_PORT] assms [of ENTITY_SERVER_INFO_IP_ADDRESS]
    assms [of ENTITY_SERVER_INFO_PORT_NUMBER] assms [of NETWORK_PROTOCOL]
  by (cases a; cases b) simp

lemma loop_body_no_key:
  assumes wf: "wf_header h" and big: "2 \<le> MAX_bytes h"
    and nk: "\<forall>k. \<not> sublist (key_string k) P"
    and kp: "keeps k0 P V s"
  shows "\<exists>s'. loop_body h s = (Inr (), s')"
proof -
  from kp obtain f where f: "fp s = Some f" by (auto simp: keeps_def)
  from fgets_Inr [OF f, of "MAX_bytes h"] obtain pl s1 where g: "fgets (MAX_bytes h) s = (Inr pl, s1)"
    by blast
  from pass_scans [OF big kp f g] obtain i str where
    r: "resolve pl s1 = Some (Buffer, i)" and c: "cstr (mem s1 Buffer) i = Some str" and sp: "sublist str P"
    by blast
  let ?s = "s1\<lparr>plines := plines s1 @ [(pl, olds s1)]\<rparr>"
  have "\<exists>p st'. strtok pl ''='' ?s = (Inr p, st')"
    using r c by (intro strtok_total [where r = Buffer and i = i and str = str]) simp_all
  then obtain p s2 where t: "strtok pl ''='' ?s = (Inr p, s2)" by blast
  show ?thesis
  proof (cases p)
    case None
    with g t show ?thesis by (simp add: loop_body_def bindE_def returnE_def)
  next
    case (Some q)
    from strtok_InrD [OF t] r c Some obtain tk where
      tk: "cstr (mem s2 (fst q)) (snd q) = Some tk" and ts: "sublist tk str"
      by auto
    have "key_of tk = None"
    proof (cases "key_of tk")
      case (Some k')
      then have "tk = key_string k'" by (simp add: key_of_Some)
      with ts sp nk show ?thesis using sublist_trans3 by blast
    qed simp
    with g t Some tk show ?thesis
      by (simp add: loop_body_def bindE_def returnE_def string_at_def switch_get_key_value [OF wf])
  qed
qed

lemma todo_decreases:
  assumes wf: "wf_header h" and big: "2 \<le> MAX_bytes h"
    and f: "fp s = Some f" and e: "\<not> eof f"
    and a: "loop_body h s = (Inr u, s')"
  shows "todo s' < todo s"
proof -
  from loop_body_summaryD [OF wf a] f obtain pl s1 where
    g: "fgets (MAX_bytes h) s = (Inr pl, s1)" and fp': "fp s' = fp s1"
    by (elim exE conjE) (rule that)
  note fg = fgets_InrD(1) [OF f g]
  show ?thesis
  proof (cases "unread f = []")
    case True
    then have "chunk_of h f = []" by (simp add: chunk_of_def getline_Nil)
    with True fg fp' f e big show ?thesis by (simp add: todo_def)
  next
    case False
    with big have "chunk_of h f \<noteq> []" by (simp add: chunk_of_def getline_eq_Nil)
    then have "length (drop (length (chunk_of h f)) (unread f)) < length (unread f)"
      using False by simp
    with fg fp' f e show ?thesis by (simp add: todo_def)
  qed
qed

lemma while_loop_total:
  fixes m :: "state \<Rightarrow> nat"
  assumes init: "I st"
    and step: "\<And>s. I s \<Longrightarrow> (\<exists>b. feof s = (Inr b, s))
        \<and> (feof s = (Inr False, s) \<longrightarrow> (\<exists>s'. loop_body h s = (Inr (), s') \<and> I s' \<and> m s' < m s))"
  shows "\<exists>st'. while_loop h st = Some (Inr (), st')"
  using init
proof (induction "m st" arbitrary: st rule: less_induct)
  case less
  from step [OF less.prems] obtain b where b: "feof st = (Inr b, st)" by blast
  show ?case
  proof (cases b)
    case True
    with b show ?thesis by (subst while_loop.simps) simp
  next
    case False
    with b have nf: "feof st = (Inr False, st)" by simp
    with step [OF less.prems] obtain s' where
      s': "loop_body h st = (Inr (), s')" "I s'" "m s' < m st" by blast
    from less.hyps [OF s'(3) s'(2)] obtain st' where "while_loop h s' = Some (Inr (), st')" ..
    with nf s'(1) have "while_loop h st = Some (Inr (), st')"
      by (subst while_loop.simps) simp
    then show ?thesis ..
  qed
qed

lemma sized_step:
  assumes wf: "wf_header h" and sz: "sized h (cfg s)" and a: "loop_body h s = (Inr u, s')"
  shows "sized h (cfg s')"
proof -
  from loop_body_summaryD [OF wf a] obtain f pl s1 str where
    f: "fp s = Some f" and g: "fgets (MAX_bytes h) s = (Inr pl, s1)"
    and cf: "cfg s' = cfg s1 \<or> (\<exists>k' bytes. sublist (key_string k') str \<and> length bytes = sizeof_field h k'
        \<and> cfg s' = set_field k' bytes (cfg s1))"
    by (elim exE conjE) (rule that)
  from fgets_InrD(2) [OF f g] sz have "sized h (cfg s1)" by simp
  with cf show ?thesis
    by (auto simp: sized_def field_set_field)
qed

lemma load_sized:
  assumes wf: "wf_header h" and sz: "sized h (heap_block e)"
    and ret: "outcome (load_config_t h e path) = Some (Inr c)"
  shows "sized h c"
proof -
  let ?s = "(initial h e path)\<lparr>stdout := [''--config--\<newline>'']\<rparr>"
  from load_returns [OF ret] obtain st2 where w: "while_loop h ?s = Some (Inr (), st2)" and c: "c = cfg st2"
    by blast
  have init: "sized h (cfg ?s)" using sz by (simp add: initial_def)
  have step: "sized h (cfg s')"
    if "sized h (cfg s)" "feof s = (Inr False, s)" "loop_body h s = (Inr (), s')" for s s'
    using sized_step [OF wf that(1) that(3)] .
  have "sized h (cfg st2) \<and> feof st2 = (Inr True, st2)"
    using w init step by (rule while_loop_invariant [where I = "\<lambda>s. sized h (cfg s)"])
  with c show ?thesis by simp
qed

lemma load_keeps:
  assumes wf: "wf_header h" and big: "2 \<le> MAX_bytes h"
    and fl: "files e path = Some bytes" and ne: "bytes \<noteq> []"
    and nk: "\<not> sublist (key_string k) bytes"
    and w: "while_loop h ((initial h e path)\<lparr>stdout := [''--config--\<newline>'']\<rparr>) = Some (Inr (), st2)"
  shows "keeps k bytes (field k (heap_block e)) st2"
proof -
  let ?s = "(initial h e path)\<lparr>stdout := [''--config--\<newline>'']\<rparr>"
  let ?I = "keeps k bytes (field k (heap_block e))"
  have init: "?I ?s"
    using fl ne by (simp add: keeps_def initial_def fopen_def)
  have step: "?I s'" if "?I s" "feof s = (Inr False, s)" "loop_body h s = (Inr (), s')" for s s'
    using keeps_step [OF wf big nk that(1) that(3)] .
  have "?I st2 \<and> feof st2 = (Inr True, st2)"
    using w init step by (rule while_loop_invariant [where I = ?I])
  then show ?thesis by simp
qed

lemma fgets_None_iff:
  assumes "fp st = Some f" "fgets (MAX_bytes h) st = (Inr pl, st')" "2 \<le> MAX_bytes h"
  shows "pl = None \<longleftrightarrow> unread f = []"
  using assms by (auto simp: fgets_def Let_def getline_eq_Nil split: if_splits)

lemma reading_step:
  assumes wf: "wf_header h" and big: "2 \<le> MAX_bytes h"
    and rd: "reading s" and nf: "feof s = (Inr False, s)"
    and a: "loop_body h s = (Inr u, s')"
  shows "reading s'"
proof -
  from loop_body_summaryD [OF wf a] obtain f pl s1 r i j where
    f: "fp s = Some f" and g: "fgets (MAX_bytes h) s = (Inr pl, s1)"
    and r: "resolve pl s1 = Some (r, i)" and o: "olds s' = Some (r, j)"
    and fp': "fp s' = fp s1" and pl': "plines s' = plines s1 @ [(pl, olds s1)]"
    by (elim exE conjE) (rule that)
  note fg = fgets_InrD [OF f g]
  from nf f have e: "\<not> eof f" by (simp add: feof_def)
  from rd f e have all: "\<forall>p\<in>set (plines s). fst p = Some (Buffer, 0)"
    and rest: "if unread f = [] then plines s \<noteq> [] \<and> (\<exists>j. olds s = Some (Buffer, j))
                else last (unread f) = NL"
    by (auto simp: reading_def)
  define f' where "f' = f\<lparr>unread := drop (length (chunk_of h f)) (unread f),
                        eof := (eof f \<or> (length (chunk_of h f) < MAX_bytes h - 1
                                 \<and> chunk_of h f = unread f
                                 \<and> (chunk_of h f = [] \<or> last (chunk_of h f) \<noteq> NL)))\<rparr>"
  have fs: "fp s' = Some f'"
    using fp' fg(1) by (simp add: f'_def)
  have ps: "plines s' = plines s @ [(pl, olds s)]"
    using pl' fg(3) fg(5) by simp
  show ?thesis
  proof (cases "unread f = []")
    case True
    with fgets_None_iff [OF f g big] have pn: "pl = None" by simp
    from True have "chunk_of h f = []" by (simp add: chunk_of_def getline_Nil)
    with True big have ef: "eof f'" by (simp add: f'_def)
    from rest True obtain j0 where "plines s \<noteq> []" "olds s = Some (Buffer, j0)" by auto
    with ps pn all have "\<exists>qs j. plines s' = qs @ [(None, Some (Buffer, j))] \<and> qs \<noteq> []
               \<and> (\<forall>p\<in>set qs. fst p = Some (Buffer, 0))"
      by auto
    with fs ef show ?thesis by (simp add: reading_def)
  next
    case False
    with fgets_None_iff [OF f g big] have "pl \<noteq> None" by simp
    with fg(8) have pl: "pl = Some (Buffer, 0)" by simp
    with r have rb: "r = Buffer" by simp
    from False rest have l: "last (unread f) = NL" by simp
    have nh: "\<not> (chunk_of h f = unread f \<and> (chunk_of h f = [] \<or> last (chunk_of h f) \<noteq> NL))"
      using False l by auto
    with e have ef: "\<not> eof f'" by (simp add: f'_def)
    have all': "\<forall>p\<in>set (plines s'). fst p = Some (Buffer, 0)"
      using ps pl all by simp
    have "if unread f' = [] then plines s' \<noteq> [] \<and> (\<exists>j. olds s' = Some (Buffer, j))
                else last (unread f') = NL"
    proof (cases "unread f' = []")
      case True
      with ps o rb show ?thesis by simp
    next
      case False
      then have "length (chunk_of h f) < length (unread f)" by (simp add: f'_def)
      then have "last (drop (length (chunk_of h f)) (unread f)) = last (unread f)"
        by (rule last_drop)
      with False l show ?thesis by (simp add: f'_def)
    qed
    with fs ef all' show ?thesis by (simp add: reading_def)
  qed
qed

text \<open>One pass of the outer loop writes to one member at most.\<close>

lemma pass_assigns_at_most_one:
  assumes wf: "wf_header h" and a: "loop_body h s = (Inr u, s')"
  shows "\<exists>k. \<forall>k'. k' \<noteq> k \<longrightarrow> field k' (cfg s') = field k' (cfg s)"
proof -
  from loop_body_summaryD [OF wf a] obtain f pl s1 str where
    f: "fp s = Some f" and g: "fgets (MAX_bytes h) s = (Inr pl, s1)"
    and cf: "cfg s' = cfg s1 \<or> (\<exists>k' bytes. sublist (key_string k') str \<and> length bytes = sizeof_field h k'
        \<and> cfg s' = set_field k' bytes (cfg s1))"
    by (elim exE conjE) (rule that)
  from cf fgets_InrD(2) [OF f g] show ?thesis
    by (auto simp: field_set_field)
qed

text \<open>
  What one pass of the outer loop does to the record and to standard output.
\<close>

lemma pass_assignment:
  assumes wf: "wf_header h" and a: "loop_body h s = (Inr u, s')"
  shows "(cfg s' = cfg s \<and> stdout s' = stdout s)
       \<or> (\<exists>k tok X. NUL \<notin> set tok
             \<and> stdout s' = stdout s @ [progress_pre k @ tok @ progress_post k]
             \<and> cfg s' = set_field k (take (sizeof_field h k) (tok @ NUL # X)) (cfg s)
             \<and> sizeof_field h k \<le> length (tok @ NUL # X))"
proof -
  from loop_body_InrE [OF a wf] obtain f pl s1 p s2 where
    f: "fp s = Some f" and g: "fgets (MAX_bytes h) s = (Inr pl, s1)"
    and t: "strtok pl ''='' (s1\<lparr>plines := plines s1 @ [(pl, olds s1)]\<rparr>) = (Inr p, s2)"
    and pn: "p = None \<longrightarrow> s' = s2"
    and ps: "\<forall>q. p = Some q \<longrightarrow> (\<exists>t. cstr (mem s2 (fst q)) (snd q) = Some t \<and>
        (case key_of t of
           None \<Rightarrow> s' = s2
         | Some k \<Rightarrow> switch_case (progress_pre k) (progress_post k) (set_field k) (sizeof_field h k) s2 = (Inr (), s')))"
    by blast
  note fg = fgets_InrD [OF f g]
  from strtok_InrD [OF t] have s2: "cfg s2 = cfg s" "stdout s2 = stdout s"
    using fg(2) fg(4) by auto
  have stay: ?thesis if eq: "s' = s2"
    using eq s2 by simp
  show ?thesis
  proof (cases p)
    case None
    with pn stay show ?thesis by simp
  next
    case (Some q0)
    with ps obtain t0 where
      sw: "(case key_of t0 of
           None \<Rightarrow> s' = s2
         | Some k \<Rightarrow> switch_case (progress_pre k) (progress_post k) (set_field k) (sizeof_field h k) s2 = (Inr (), s'))"
      by blast
    show ?thesis
    proof (cases "key_of t0")
      case None
      with sw stay show ?thesis by simp
    next
      case (Some k)
      with sw have sc: "switch_case (progress_pre k) (progress_post k) (set_field k) (sizeof_field h k) s2 = (Inr (), s')"
        by simp
      from switch_case_InrE [OF sc] obtain q2 s3 t2 where
        t3: "strtok None '' '' s2 = (Inr (Some q2), s3)"
        and c3: "cstr (mem s3 (fst q2)) (snd q2) = Some t2"
        and b3: "snd q2 + sizeof_field h k \<le> length (mem s3 (fst q2))"
        and e3: "s' = s3\<lparr>stdout := stdout s3 @ [progress_pre k @ t2 @ progress_post k],
               cfg := set_field k (take (sizeof_field h k) (drop (snd q2) (mem s3 (fst q2)))) (cfg s3)\<rparr>"
        by blast
      from strtok_InrD [OF t3] have s3: "cfg s3 = cfg s2" "stdout s3 = stdout s2"
        by auto
      from cstr_SomeD [OF c3] obtain rest where
        d: "drop (snd q2) (mem s3 (fst q2)) = t2 @ NUL # rest" and n: "NUL \<notin> set t2"
        by blast
      have "length (drop (snd q2) (mem s3 (fst q2))) = length (mem s3 (fst q2)) - snd q2"
        by simp
      with b3 have l: "sizeof_field h k \<le> length (t2 @ NUL # rest)"
        unfolding d [symmetric] by simp
      have "NUL \<notin> set t2
             \<and> stdout s' = stdout s @ [progress_pre k @ t2 @ progress_post k]
             \<and> cfg s' = set_field k (take (sizeof_field h k) (t2 @ NUL # rest)) (cfg s)
             \<and> sizeof_field h k \<le> length (t2 @ NUL # rest)"
        using n l s2 s3 unfolding e3 d by simp
      then show ?thesis by blast
    qed
  qed
qed

lemma sized_example_block: "sized example_header example_block"
  unfolding sized_def
proof
  fix k show "length (field k example_block) = sizeof_field example_header k"
    by (cases k) (simp_all add: example_block_def example_header_def)
qed

lemma no_key_in_example:
  "\<not> sublist (key_string k) ''foo=bar\<newline>\<newline>x\<newline>''"
  by (cases k; simp add: key_strings; code_simp)

section \<open>What the loader does with a file\<close>

subsection \<open>A line with a key and a value\<close>




subsection \<open>A key without a value\<close>




subsection \<open>Keys that do not occur\<close>

text \<open>
  C4, as the code has it. \<open>malloc\<close> does not initialise the block, and the
  loader gives no member a default. For a file that is not empty, read with a
  line buffer of two bytes or more: when none of the ten key strings occurs in
  the file, load returns, and the record is the fresh block as \<open>malloc\<close> left
  it; and whenever load returns a record, a member whose key string does not
  occur in the file holds the bytes the fresh block had.
\<close>

theorem unrecognised_keys_leave_block:
  assumes wf: "wf_header h" and big: "2 \<le> MAX_bytes h"
    and fl: "files e path = Some bytes" and ne: "bytes \<noteq> []"
  shows "((\<forall>k. \<not> sublist (key_string k) bytes)
            \<longrightarrow> outcome (load_config_t h e path) = Some (Inr (heap_block e)))
       \<and> (\<not> sublist (key_string k) bytes \<and> loaded k (load_config_t h e path) = Some v
            \<longrightarrow> v = field k (heap_block e))"
proof (intro conjI impI)
  let ?s = "(initial h e path)\<lparr>stdout := [''--config--\<newline>'']\<rparr>"
  assume "\<not> sublist (key_string k) bytes \<and> loaded k (load_config_t h e path) = Some v"
  then have nk: "\<not> sublist (key_string k) bytes" and lv: "loaded k (load_config_t h e path) = Some v"
    by simp_all
  from loaded_SomeD [OF lv] obtain c where c: "outcome (load_config_t h e path) = Some (Inr c)" "v = field k c"
    by blast
  from load_returns [OF c(1)] obtain st2 where w: "while_loop h ?s = Some (Inr (), st2)" and cc: "c = cfg st2"
    by blast
  from load_keeps [OF wf big fl ne nk w] c(2) cc show "v = field k (heap_block e)"
    by (auto simp add: keeps_def)
next
  let ?s = "(initial h e path)\<lparr>stdout := [''--config--\<newline>'']\<rparr>"
  let ?I = "\<lambda>s. \<forall>k. keeps k bytes (field k (heap_block e)) s"
  assume nk: "\<forall>k. \<not> sublist (key_string k) bytes"
  have init: "?I ?s"
    using fl ne by (simp add: keeps_def initial_def fopen_def)
  have step: "(\<exists>b. feof s = (Inr b, s))
        \<and> (feof s = (Inr False, s) \<longrightarrow> (\<exists>s'. loop_body h s = (Inr (), s') \<and> ?I s' \<and> todo s' < todo s))"
    if i: "?I s" for s
  proof -
    from i have kp: "keeps ENTITY_INFO_NAME bytes (field ENTITY_INFO_NAME (heap_block e)) s" by blast
    then obtain f where f: "fp s = Some f" by (auto simp: keeps_def)
    then have fe: "feof s = (Inr (eof f), s)" by (simp add: feof_def)
    from loop_body_no_key [OF wf big nk kp] obtain s' where b: "loop_body h s = (Inr (), s')" ..
    have i': "?I s'"
    proof
      fix k
      from nk have "\<not> sublist (key_string k) bytes" by simp
      from keeps_step [OF wf big this _ b] i show "keeps k bytes (field k (heap_block e)) s'" by blast
    qed
    have "todo s' < todo s" if "\<not> eof f"
      using todo_decreases [OF wf big f that b] .
    with fe b i' show ?thesis by auto
  qed
  from while_loop_total [where I = ?I and m = todo, OF init step]
  obtain st2 where w: "while_loop h ?s = Some (Inr (), st2)" by blast
  have "field k (cfg st2) = field k (heap_block e)" for k
  proof -
    from nk have "\<not> sublist (key_string k) bytes" by simp
    from load_keeps [OF wf big fl ne this w] show ?thesis by (auto simp add: keeps_def)
  qed
  then have eq: "cfg st2 = heap_block e" by (rule config_eqI)
  from nk have "\<not> sublist (key_string ENTITY_INFO_NAME) bytes" by blast
  from load_keeps [OF wf big fl ne this w] obtain f where f: "fp st2 = Some f"
    by (auto simp: keeps_def)
  from w f eq show "outcome (load_config_t h e path) = Some (Inr (heap_block e))"
    by (simp add: load_config_t_def printf_def initial_def fclose_def outcome_def)
qed

theorem unrecognised_keys_leave_block_witness:
  "outcome (load_config_t example_header (example_env (Some ''foo=bar\<newline>\<newline>x\<newline>'')) ''entity.config'')
     = Some (Inr example_block)
   \<and> loaded NETWORK_PROTOCOL
        (load_config_t example_header (example_env (Some ''foo=bar\<newline>\<newline>x\<newline>'')) ''entity.config'')
     = Some (replicate 32 (CHR ''?''))
   \<and> replicate 32 (CHR ''?'') = field NETWORK_PROTOCOL example_block"
proof -
  let ?e = "example_env (Some ''foo=bar\<newline>\<newline>x\<newline>'')"
  have fl: "files ?e ''entity.config'' = Some ''foo=bar\<newline>\<newline>x\<newline>''"
    by (simp add: example_env_def)
  have big: "2 \<le> MAX_bytes example_header" by (simp add: example_header_def)
  have ne: "''foo=bar\<newline>\<newline>x\<newline>'' \<noteq> []" by simp
  have hb: "heap_block ?e = example_block" by (simp add: example_env_def)
  have ret: "loaded NETWORK_PROTOCOL (load_config_t example_header ?e ''entity.config'')
     = Some (replicate 32 (CHR ''?''))"
    by code_simp
  have nk: "\<forall>k. \<not> sublist (key_string k) ''foo=bar\<newline>\<newline>x\<newline>''"
    using no_key_in_example by blast
  note t = unrecognised_keys_leave_block [OF wf_example_header big fl ne, of NETWORK_PROTOCOL "replicate 32 (CHR ''?'')"]
  from t nk have 1: "outcome (load_config_t example_header ?e ''entity.config'') = Some (Inr (heap_block ?e))"
    by blast
  from t nk ret have 2: "replicate 32 (CHR ''?'') = field NETWORK_PROTOCOL (heap_block ?e)"
    by blast
  from 1 2 ret hb show ?thesis by simp
qed

text \<open>
  A file with one unknown key returns the block's bytes, here question marks,
  in the member \<open>name\<close>, not an empty string; and the empty file stops the run
  with a null-pointer fault in \<open>strtok\<close>.
\<close>

theorem unset_members_counterexample:
  "map_option c_string
     (loaded ENTITY_INFO_NAME
        (load_config_t example_header (example_env (Some ''foo=bar\<newline>'')) ''entity.config''))
     = Some ''????????????????????????????????''
   \<and> outcome (load_config_t example_header (example_env (Some '''')) ''entity.config'') = Some (Inl NullPointer)"
  by code_simp

subsection \<open>A key that occurs twice\<close>




subsection \<open>The size of a member\<close>

text \<open>
  C7, as the code has it. Every assignment to a member is made by a pass of the
  outer loop, in a \<open>case\<close> of the \<open>switch\<close>. For every pass that ends without
  a fault, from any state: either the record and standard output are as they
  were; or the pass has printed one progress line, which holds the whole value
  token, and has assigned one member, the others being as they were. That member
  has received exactly \<open>sizeof\<close> the member bytes, the first of the token, a NUL
  and the bytes behind it in the buffer: it has exactly its size, and when the
  token is as long as the member or longer, it holds the first bytes of the
  token and no NUL behind them. Nothing but the progress line reports on the
  assignment. And when every member of the fresh block has its size and load
  returns a record, every member of the record has exactly its size.
\<close>

theorem member_copy_exact:
  assumes wf: "wf_header h"
  shows "(loop_body h s = (Inr u, s') \<longrightarrow>
            (cfg s' = cfg s \<and> stdout s' = stdout s)
          \<or> (\<exists>k tok X. NUL \<notin> set tok
                \<and> stdout s' = stdout s @ [progress_pre k @ tok @ progress_post k]
                \<and> cfg s' = set_field k (take (sizeof_field h k) (tok @ NUL # X)) (cfg s)
                \<and> length (field k (cfg s')) = sizeof_field h k
                \<and> (sizeof_field h k \<le> length tok \<longrightarrow> field k (cfg s') = take (sizeof_field h k) tok)))
       \<and> (sized h (heap_block e) \<and> outcome (load_config_t h e path) = Some (Inr c) \<longrightarrow> sized h c)"
proof (intro conjI impI)
  assume "sized h (heap_block e) \<and> outcome (load_config_t h e path) = Some (Inr c)"
  then show "sized h c" using wf load_sized by blast
next
  assume a: "loop_body h s = (Inr u, s')"
  from pass_assignment [OF wf a]
  show "(cfg s' = cfg s \<and> stdout s' = stdout s)
          \<or> (\<exists>k tok X. NUL \<notin> set tok
                \<and> stdout s' = stdout s @ [progress_pre k @ tok @ progress_post k]
                \<and> cfg s' = set_field k (take (sizeof_field h k) (tok @ NUL # X)) (cfg s)
                \<and> length (field k (cfg s')) = sizeof_field h k
                \<and> (sizeof_field h k \<le> length tok \<longrightarrow> field k (cfg s') = take (sizeof_field h k) tok))"
  proof
    assume "cfg s' = cfg s \<and> stdout s' = stdout s"
    then show ?thesis by (rule disjI1)
  next
    assume "\<exists>k tok X. NUL \<notin> set tok
             \<and> stdout s' = stdout s @ [progress_pre k @ tok @ progress_post k]
             \<and> cfg s' = set_field k (take (sizeof_field h k) (tok @ NUL # X)) (cfg s)
             \<and> sizeof_field h k \<le> length (tok @ NUL # X)"
    then obtain k tok X where n: "NUL \<notin> set tok"
      and o: "stdout s' = stdout s @ [progress_pre k @ tok @ progress_post k]"
      and c: "cfg s' = set_field k (take (sizeof_field h k) (tok @ NUL # X)) (cfg s)"
      and l: "sizeof_field h k \<le> length (tok @ NUL # X)"
      by blast
    have f: "field k (cfg s') = take (sizeof_field h k) (tok @ NUL # X)"
      unfolding c by (simp add: field_set_field)
    have 1: "length (field k (cfg s')) = sizeof_field h k"
      unfolding f using l by simp
    have 2: "sizeof_field h k \<le> length tok \<longrightarrow> field k (cfg s') = take (sizeof_field h k) tok"
      unfolding f by simp
    from n o c 1 2 show ?thesis by blast
  qed
qed

theorem member_copy_exact_witness:
  "fst (first_pass ''entityInfo.name=0123456789abcdefghijklmnopqrstuvwxyz\<newline>'') = Inr ()
   \<and> stdout (snd (first_pass ''entityInfo.name=0123456789abcdefghijklmnopqrstuvwxyz\<newline>''))
       = [''--config--\<newline>'', ''name: 0123456789abcdefghijklmnopqrstuvwxyz\<newline>'']
   \<and> field ENTITY_INFO_NAME (cfg (snd (first_pass ''entityInfo.name=0123456789abcdefghijklmnopqrstuvwxyz\<newline>'')))
       = ''0123456789abcdefghijklmnopqrstuv''
   \<and> (\<exists>k tok. stdout (snd (first_pass ''entityInfo.name=0123456789abcdefghijklmnopqrstuvwxyz\<newline>''))
          = [''--config--\<newline>''] @ [progress_pre k @ tok @ progress_post k]
        \<and> length (field k (cfg (snd (first_pass ''entityInfo.name=0123456789abcdefghijklmnopqrstuvwxyz\<newline>''))))
          = sizeof_field example_header k)
   \<and> outcome (load_config_t example_header
          (example_env (Some ''entityInfo.purpose=0123456789abcdefghijklmnopqrstuvwxyz\<newline>'')) ''entity.config'')
       = Some (Inr (example_block\<lparr>purpose := ''0123456789abcdefghijklmnopqrstuv''\<rparr>))
   \<and> sized example_header (example_block\<lparr>purpose := ''0123456789abcdefghijklmnopqrstuv''\<rparr>)"
proof -
  let ?F = "''entityInfo.name=0123456789abcdefghijklmnopqrstuvwxyz\<newline>''"
  let ?s = "snd (printf ''--config--\<newline>'' (initial example_header (example_env (Some ?F)) ''entity.config''))"
  let ?s' = "snd (first_pass ?F)"
  let ?e = "example_env (Some ''entityInfo.purpose=0123456789abcdefghijklmnopqrstuvwxyz\<newline>'')"
  let ?c = "example_block\<lparr>purpose := ''0123456789abcdefghijklmnopqrstuv''\<rparr>"
  have p: "fst (first_pass ?F) = Inr ()"
    by code_simp
  have o: "stdout ?s' = [''--config--\<newline>'', ''name: 0123456789abcdefghijklmnopqrstuvwxyz\<newline>'']"
    by code_simp
  have n: "field ENTITY_INFO_NAME (cfg ?s') = ''0123456789abcdefghijklmnopqrstuv''"
    by code_simp
  have o0: "stdout ?s = [''--config--\<newline>'']"
    by (simp add: printf_def initial_def)
  have ret: "outcome (load_config_t example_header ?e ''entity.config'') = Some (Inr ?c)"
    by code_simp
  have sz: "sized example_header (heap_block ?e)"
    using sized_example_block by (simp add: example_env_def)
  have lb: "loop_body example_header ?s = (Inr (), ?s')"
    using p unfolding first_pass_def by (metis prod.collapse)
  note t = member_copy_exact [OF wf_example_header, of ?s "()" ?s' ?e "''entity.config''" ?c]
  from t lb have
    "(cfg ?s' = cfg ?s \<and> stdout ?s' = stdout ?s)
     \<or> (\<exists>k tok X. NUL \<notin> set tok
           \<and> stdout ?s' = stdout ?s @ [progress_pre k @ tok @ progress_post k]
           \<and> cfg ?s' = set_field k (take (sizeof_field example_header k) (tok @ NUL # X)) (cfg ?s)
           \<and> length (field k (cfg ?s')) = sizeof_field example_header k
           \<and> (sizeof_field example_header k \<le> length tok
                \<longrightarrow> field k (cfg ?s') = take (sizeof_field example_header k) tok))"
    by blast
  moreover have "stdout ?s' \<noteq> stdout ?s"
    unfolding o o0 by simp
  ultimately have x: "\<exists>k tok. stdout ?s' = [''--config--\<newline>''] @ [progress_pre k @ tok @ progress_post k]
        \<and> length (field k (cfg ?s')) = sizeof_field example_header k"
    unfolding o0 by blast
  from t sz ret have "sized example_header ?c" by blast
  with p o n x sz ret show ?thesis by (intro conjI)
qed

text \<open>
  A token of 37 bytes for a member of 32: load returns as on any other run, and
  standard output holds the banner and the progress line with the whole token.
\<close>

theorem truncation_silent_counterexample:
  "loaded ENTITY_INFO_NAME
     (load_config_t example_header
        (example_env (Some ''entityInfo.name=0123456789abcdefghijklmnopqrstuvwxyz\<newline>'')) ''entity.config'')
     = Some ''0123456789abcdefghijklmnopqrstuv''
   \<and> printed (load_config_t example_header
        (example_env (Some ''entityInfo.name=0123456789abcdefghijklmnopqrstuvwxyz\<newline>'')) ''entity.config'')
     = [''--config--\<newline>'', ''name: 0123456789abcdefghijklmnopqrstuvwxyz\<newline>'']"
  by code_simp

subsection \<open>One key per line\<close>

text \<open>
  C8, evaluated where it fails. The file has the single line
  \<open>entityInfo.name=a auth.port.number=80\<close> with its newline. The pass that
  reads the line assigns \<open>name\<close>; since \<open>feof\<close> is asked before \<open>fgets\<close>, a
  second pass follows in which \<open>fgets\<close> returns NULL and \<open>strtok\<close> goes on in
  the same line, and that pass assigns \<open>auth_port_num\<close> from the second
  pair. With one more line behind it, the same line assigns \<open>name\<close> alone.
\<close>

theorem final_line_second_pair_assigned:
  "map_option c_string
     (loaded ENTITY_INFO_NAME
        (load_config_t example_header (example_env (Some ''entityInfo.name=a auth.port.number=80\<newline>'')) ''entity.config''))
     = Some ''a''
   \<and> map_option c_string
     (loaded AUTH_INFO_PORT
        (load_config_t example_header (example_env (Some ''entityInfo.name=a auth.port.number=80\<newline>'')) ''entity.config''))
     = Some ''80\<newline>''
   \<and> passes (load_config_t example_header (example_env (Some ''entityInfo.name=a auth.port.number=80\<newline>'')) ''entity.config'')
     = [(Some (Buffer, 0), None), (None, Some (Buffer, 18))]
   \<and> map_option c_string
     (loaded AUTH_INFO_PORT
        (load_config_t example_header (example_env (Some ''entityInfo.name=a auth.port.number=80\<newline>x=y\<newline>'')) ''entity.config''))
     = Some ''????????????????????????????????''"
  by code_simp

subsection \<open>The stream\<close>

text \<open>
  C9, as the code has it. \<open>fclose\<close> stands before the one \<open>return\<close>: when
  load returns a record, the stream has been closed.
\<close>

theorem returning_run_closes_stream:
  assumes "outcome (load_config_t h e path) = Some (Inr c)"
  shows "stream_open (load_config_t h e path) = Some False"
proof -
  from load_returns [OF assms] obtain st2 f where
    "load_config_t h e path = Some (Inr (cfg st2), st2\<lparr>fp := Some (f\<lparr>is_open := False\<rparr>)\<rparr>)"
    by blast
  then show ?thesis by (simp add: stream_open_def)
qed

theorem returning_run_closes_stream_witness:
  "outcome (load_config_t example_header (example_env (Some ''network.protocol=TCP'')) ''entity.config'')
     = Some (Inr (example_block\<lparr>network_protocol_member := ''TCP'' @ replicate 29 NUL\<rparr>))
   \<and> stream_open (load_config_t example_header (example_env (Some ''network.protocol=TCP'')) ''entity.config'')
     = Some False"
proof -
  have ret: "outcome (load_config_t example_header (example_env (Some ''network.protocol=TCP'')) ''entity.config'')
     = Some (Inr (example_block\<lparr>network_protocol_member := ''TCP'' @ replicate 29 NUL\<rparr>))"
    by code_simp
  from returning_run_closes_stream [OF ret] ret show ?thesis by simp
qed

text \<open>
  A key with blanks only behind \<open>=\<close> stops the run with a fault, and the
  stream is still open.
\<close>

theorem fault_leaves_stream_open_counterexample:
  "outcome (load_config_t example_header (example_env (Some ''auth.port.number=   '')) ''entity.config'')
     = Some (Inl NullPointer)
   \<and> stream_open (load_config_t example_header (example_env (Some ''auth.port.number=   '')) ''entity.config'')
     = Some True"
  by code_simp

subsection \<open>The pass after the last line\<close>

text \<open>
  C10, as the code has it. For a file that is not empty and ends with a newline
  (and a line buffer of two bytes or more): when load returns a record, the
  outer loop has made one pass for every chunk \<open>fgets\<close> read, each with
  \<open>pline\<close> at the buffer, and then one more pass, in which \<open>fgets\<close> returned
  NULL and \<open>strtok\<close>, called with that NULL, went on from its hidden pointer
  inside the buffer of the last line.
\<close>

theorem extra_pass_after_final_newline:
  assumes wf: "wf_header h" and big: "2 \<le> MAX_bytes h"
    and fl: "files e path = Some bytes" and ne: "bytes \<noteq> []" and nl: "last bytes = NL"
    and ret: "outcome (load_config_t h e path) = Some (Inr c)"
  shows "\<exists>qs j. passes (load_config_t h e path) = qs @ [(None, Some (Buffer, j))]
           \<and> qs \<noteq> [] \<and> (\<forall>p\<in>set qs. fst p = Some (Buffer, 0))"
proof -
  let ?s = "(initial h e path)\<lparr>stdout := [''--config--\<newline>'']\<rparr>"
  from load_returns [OF ret] obtain st2 f where
    w: "while_loop h ?s = Some (Inr (), st2)" and f: "fp st2 = Some f"
    and l: "load_config_t h e path = Some (Inr (cfg st2), st2\<lparr>fp := Some (f\<lparr>is_open := False\<rparr>)\<rparr>)"
    by blast
  have init: "reading ?s"
    using fl ne nl by (simp add: reading_def initial_def fopen_def)
  have step: "reading s'" if "reading s" "feof s = (Inr False, s)" "loop_body h s = (Inr (), s')" for s s'
    using reading_step [OF wf big that] .
  have "reading st2 \<and> feof st2 = (Inr True, st2)"
    using w init step by (rule while_loop_invariant [where I = reading])
  with f have "\<exists>qs j. plines st2 = qs @ [(None, Some (Buffer, j))] \<and> qs \<noteq> []
               \<and> (\<forall>p\<in>set qs. fst p = Some (Buffer, 0))"
    by (auto simp: reading_def feof_def)
  with l show ?thesis by (simp add: passes_def)
qed

theorem extra_pass_after_final_newline_witness:
  "outcome (load_config_t example_header (example_env (Some ''entityInfo.name=deviceA\<newline>'')) ''entity.config'')
     = Some (Inr (example_block\<lparr>name := ''deviceA\<newline>'' @ replicate 24 NUL\<rparr>))
   \<and> passes (load_config_t example_header (example_env (Some ''entityInfo.name=deviceA\<newline>'')) ''entity.config'')
     = [(Some (Buffer, 0), None)] @ [(None, Some (Buffer, 24))]
   \<and> (\<exists>qs j. passes (load_config_t example_header (example_env (Some ''entityInfo.name=deviceA\<newline>'')) ''entity.config'')
          = qs @ [(None, Some (Buffer, j))] \<and> qs \<noteq> [] \<and> (\<forall>p\<in>set qs. fst p = Some (Buffer, 0)))"
proof -
  let ?e = "example_env (Some ''entityInfo.name=deviceA\<newline>'')"
  have ret: "outcome (load_config_t example_header ?e ''entity.config'')
     = Some (Inr (example_block\<lparr>name := ''deviceA\<newline>'' @ replicate 24 NUL\<rparr>))"
    by code_simp
  have ps: "passes (load_config_t example_header ?e ''entity.config'')
     = [(Some (Buffer, 0), None)] @ [(None, Some (Buffer, 24))]"
    by code_simp
  have fl: "files ?e ''entity.config'' = Some ''entityInfo.name=deviceA\<newline>''"
    by (simp add: example_env_def)
  have big: "2 \<le> MAX_bytes example_header" by (simp add: example_header_def)
  from extra_pass_after_final_newline [OF wf_example_header big fl _ _ ret] ret ps
  show ?thesis by simp
qed

text \<open>
  A file whose last line has no newline: \<open>fgets\<close> meets the end of the file
  while it reads that line, and the loop ends after the one pass.
\<close>

theorem no_extra_pass_counterexample:
  "passes (load_config_t example_header (example_env (Some ''network.protocol=TCP'')) ''entity.config'')
     = [(Some (Buffer, 0), None)]
   \<and> map_option c_string
        (loaded NETWORK_PROTOCOL
           (load_config_t example_header (example_env (Some ''network.protocol=TCP'')) ''entity.config''))
     = Some ''TCP''"
  by code_simp

end
